theory Spec2Isabelle
  imports
    Main
    "HOL-Library.Sublist"
    "HOL-Library.List_Lexorder"
    "HOL-Library.Char_ord"
begin

section \<open>Contributions table: data model\<close>

text \<open>
  The interface \<^verbatim>\<open>Contribution\<close> of \<^verbatim>\<open>types.ts\<close>. The field \<^verbatim>\<open>id\<close> is called
  \<open>id_num\<close> here, since \<open>id\<close> is the identity function of HOL. The status is a
  string: the TypeScript union \<^verbatim>\<open>'pending' | 'searched' | 'paid'\<close> is erased at run
  time and the records come from a JSON file. Numbers are modelled as integers
  (identifiers and counts); strings are compared by character code, as \<^verbatim>\<open><\<close> does
  on the code units of JavaScript strings.
\<close>

record Contribution =
  description :: string
  id_num :: int
  name :: string
  propertiesCount :: int
  status :: string

subsection \<open>StatusBadge\<close>

text \<open>
  The badge element that \<^verbatim>\<open>StatusBadge\<close> returns, reduced to what the switch
  decides: the colour and the label (\<^verbatim>\<open>variant="filled"\<close> and \<^verbatim>\<open>radius="sm"\<close> are
  constant).
\<close>

record Badge =
  badge_color :: string
  badge_text :: string

definition StatusBadge :: "string \<Rightarrow> Badge" where
  "StatusBadge st =
     (if st = ''searched'' then \<lparr>badge_color = ''orange'', badge_text = ''Buscado''\<rparr>
      else if st = ''pending'' then \<lparr>badge_color = ''blue'', badge_text = ''Pendiente''\<rparr>
      else if st = ''paid'' then \<lparr>badge_color = ''green'', badge_text = ''Pagado''\<rparr>
      else \<lparr>badge_color = ''gray'', badge_text = ''Sin estado''\<rparr>)"

subsection \<open>String operations of the filter\<close>

text \<open>
  A string is a sequence of characters with the codes 0 to 255, read as the code points
  U+0000 to U+00FF (Latin-1); characters beyond U+00FF are not represented. On these,
  \<^verbatim>\<open>String.prototype.toLowerCase\<close> lowers the letters \<open>A\<close> to \<open>Z\<close> and the capital
  letters U+00C0 to U+00DE other than the multiplication sign U+00D7, each to the
  character 32 places further, and keeps every other character; the white space and
  line terminators that \<^verbatim>\<open>String.prototype.trim\<close> removes are tab, line feed,
  vertical tab, form feed, carriage return, space and the no-break space U+00A0.
\<close>

definition upper_case_letters :: string where
  "upper_case_letters =
     ''ABCDEFGHIJKLMNOPQRSTUVWXYZ'' @
       [CHR 0xC0, CHR 0xC1, CHR 0xC2, CHR 0xC3, CHR 0xC4, CHR 0xC5, CHR 0xC6, CHR 0xC7,
        CHR 0xC8, CHR 0xC9, CHR 0xCA, CHR 0xCB, CHR 0xCC, CHR 0xCD, CHR 0xCE, CHR 0xCF,
        CHR 0xD0, CHR 0xD1, CHR 0xD2, CHR 0xD3, CHR 0xD4, CHR 0xD5, CHR 0xD6, CHR 0xD8,
        CHR 0xD9, CHR 0xDA, CHR 0xDB, CHR 0xDC, CHR 0xDD, CHR 0xDE]"

definition lower_case_letters :: string where
  "lower_case_letters =
     ''abcdefghijklmnopqrstuvwxyz'' @
       [CHR 0xE0, CHR 0xE1, CHR 0xE2, CHR 0xE3, CHR 0xE4, CHR 0xE5, CHR 0xE6, CHR 0xE7,
        CHR 0xE8, CHR 0xE9, CHR 0xEA, CHR 0xEB, CHR 0xEC, CHR 0xED, CHR 0xEE, CHR 0xEF,
        CHR 0xF0, CHR 0xF1, CHR 0xF2, CHR 0xF3, CHR 0xF4, CHR 0xF5, CHR 0xF6, CHR 0xF8,
        CHR 0xF9, CHR 0xFA, CHR 0xFB, CHR 0xFC, CHR 0xFD, CHR 0xFE]"

definition lower_char :: "char \<Rightarrow> char" where
  "lower_char c =
     (case map_of (zip upper_case_letters lower_case_letters) c of
        None \<Rightarrow> c
      | Some l \<Rightarrow> l)"

definition toLowerCase :: "string \<Rightarrow> string" where
  "toLowerCase s = map lower_char s"

definition is_white_space :: "char \<Rightarrow> bool" where
  "is_white_space c \<longleftrightarrow>
     c \<in> set [CHR 0x09, CHR 0x0A, CHR 0x0B, CHR 0x0C, CHR 0x0D, CHR 0x20, CHR 0xA0]"

definition trim :: "string \<Rightarrow> string" where
  "trim s = rev (dropWhile is_white_space (rev (dropWhile is_white_space s)))"

text \<open>\<^verbatim>\<open>s.includes(sub)\<close>: \<open>sub\<close> occurs in \<open>s\<close> at some position.\<close>

fun includes_str :: "string \<Rightarrow> string \<Rightarrow> bool" where
  "includes_str [] sub = (sub = [])"
| "includes_str (c # cs) sub = (prefix sub (c # cs) \<or> includes_str cs sub)"

subsection \<open>The recompute effect: filter, sort, slice\<close>

datatype columnAccessor = Name | PropertiesCount

datatype direction = Asc | Desc

record DataTableSortStatus =
  columnAccessor :: columnAccessor
  direction :: direction

definition PAGE_SIZES :: "int list" where
  "PAGE_SIZES = [5, 10, 20]"

text \<open>
  The callback given to \<^verbatim>\<open>data.filter\<close>: two guarded early returns of \<^verbatim>\<open>false\<close>,
  then \<^verbatim>\<open>true\<close>.
\<close>

definition filter_callback :: "string \<Rightarrow> string list \<Rightarrow> Contribution \<Rightarrow> bool" where
  "filter_callback debouncedQuery selectedStatuses r =
     (if debouncedQuery \<noteq> [] \<and>
         \<not> includes_str (toLowerCase (name r)) (toLowerCase (trim debouncedQuery))
      then False
      else if length selectedStatuses \<noteq> 0 \<and>
         \<not> list_ex (\<lambda>s. s = status r) selectedStatuses
      then False
      else True)"

text \<open>
  \<^verbatim>\<open>sortBy\<close> of lodash with a property name as iteratee: a stable sort, ascending
  by that property. The sortable columns of the table are \<^verbatim>\<open>name\<close> and
  \<^verbatim>\<open>propertiesCount\<close>; strings are ordered lexicographically by character code.
\<close>

definition sortBy :: "Contribution list \<Rightarrow> columnAccessor \<Rightarrow> Contribution list" where
  "sortBy xs acc =
     (case acc of Name \<Rightarrow> sort_key name xs | PropertiesCount \<Rightarrow> sort_key propertiesCount xs)"

text \<open>
  \<^verbatim>\<open>Array.prototype.slice(start, end)\<close>: a negative index counts from the end of the
  array, both indices are clamped to the array, and an empty range gives the empty array.
\<close>

definition slice :: "'a list \<Rightarrow> int \<Rightarrow> int \<Rightarrow> 'a list" where
  "slice xs start fin =
     (let len = int (length xs);
          k = (if start < 0 then max (len + start) 0 else min start len);
          final = (if fin < 0 then max (len + fin) 0 else min fin len)
      in take (nat (final - k)) (drop (nat k) xs))"

text \<open>The body of the second effect, up to the value handed to \<^verbatim>\<open>setRecords\<close>.\<close>

definition paginated ::
  "Contribution list \<Rightarrow> DataTableSortStatus \<Rightarrow> int \<Rightarrow> int \<Rightarrow> string \<Rightarrow> string list
     \<Rightarrow> Contribution list" where
  "paginated data sortStatus page pageSize debouncedQuery selectedStatuses =
     (let from_i = (page - 1) * pageSize;
          to_i = from_i + pageSize;
          filtered =
            (if debouncedQuery \<noteq> [] \<or> length selectedStatuses \<noteq> 0
             then filter (filter_callback debouncedQuery selectedStatuses) data
             else data);
          sorted = sortBy filtered (columnAccessor sortStatus);
          sorted = (if direction sortStatus = Desc then rev sorted else sorted)
      in slice sorted from_i to_i)"

subsection \<open>The table component: state, effects, handlers\<close>

text \<open>
  One render of \<^verbatim>\<open>ContributionsTable\<close>: the prop \<^verbatim>\<open>data\<close> and the state variables
  that the two effects and the \<^verbatim>\<open>DataTable\<close> props read. (The raw \<^verbatim>\<open>query\<close> and its
  200 ms debounce are left out: the effects read \<^verbatim>\<open>debouncedQuery\<close> only.)
\<close>

record table =
  data :: "Contribution list"
  page :: int
  pageSize :: int
  records :: "Contribution list"
  sortStatus :: DataTableSortStatus
  debouncedQuery :: string
  selectedStatuses :: "string list"

text \<open>The initial values of the \<^verbatim>\<open>useState\<close> calls.\<close>

definition initial_table :: "Contribution list \<Rightarrow> table" where
  "initial_table d =
     \<lparr>data = d, page = 1, pageSize = hd PAGE_SIZES,
      records = slice d 0 (hd PAGE_SIZES),
      sortStatus = \<lparr>columnAccessor = Name, direction = Asc\<rparr>,
      debouncedQuery = [], selectedStatuses = []\<rparr>"

text \<open>
  The dependency arrays of the two effects, compared with the previous render
  (\<open>None\<close> on mount, where every effect runs).
\<close>

definition page_reset_deps_changed :: "table option \<Rightarrow> table \<Rightarrow> bool" where
  "page_reset_deps_changed prev cur =
     (case prev of None \<Rightarrow> True | Some p \<Rightarrow> pageSize p \<noteq> pageSize cur)"

definition recompute_deps_changed :: "table option \<Rightarrow> table \<Rightarrow> bool" where
  "recompute_deps_changed prev cur =
     (case prev of None \<Rightarrow> True
      | Some p \<Rightarrow>
          sortStatus p \<noteq> sortStatus cur \<or> data p \<noteq> data cur \<or> page p \<noteq> page cur \<or>
          pageSize p \<noteq> pageSize cur \<or> debouncedQuery p \<noteq> debouncedQuery cur \<or>
          selectedStatuses p \<noteq> selectedStatuses cur)"

text \<open>
  The effects of one committed render, in the order of their declaration. Both closures
  read the variables of the render \<open>cur\<close>; \<^verbatim>\<open>setPage\<close> and \<^verbatim>\<open>setRecords\<close> only
  queue the values of the next render, so the recompute effect reads \<open>page cur\<close> also
  when the reset effect has just called \<^verbatim>\<open>setPage(1)\<close>.
\<close>

definition commit_effects :: "table option \<Rightarrow> table \<Rightarrow> table" where
  "commit_effects prev cur =
     (let queued = (if page_reset_deps_changed prev cur then cur\<lparr>page := 1\<rparr> else cur);
          queued =
            (if recompute_deps_changed prev cur
             then queued\<lparr>records :=
                    paginated (data cur) (sortStatus cur) (page cur) (pageSize cur)
                      (debouncedQuery cur) (selectedStatuses cur)\<rparr>
             else queued)
      in queued)"

text \<open>
  Renders follow one another while a commit changes the state; a commit that leaves
  the state as it is causes no further render. At most three renders follow an event:
  the measure counts the effect passes that can still change the state.
\<close>

definition settle_measure :: "table option \<times> table \<Rightarrow> nat" where
  "settle_measure pc =
     (if page_reset_deps_changed (fst pc) (snd pc) then 2
      else if recompute_deps_changed (fst pc) (snd pc) then 1 else 0)"

function settle :: "table option \<Rightarrow> table \<Rightarrow> table" where
  "settle prev cur =
     (let nxt = commit_effects prev cur
      in if nxt = cur then cur else settle (Some cur) nxt)"
  by pat_completeness auto

termination settle
proof (relation "measure settle_measure")
  show "wf (measure settle_measure)" by simp
next
  fix prev cur nxt
  assume n: "nxt = commit_effects prev cur" and ne: "nxt \<noteq> cur"
  show "((Some cur, nxt), (prev, cur)) \<in> measure settle_measure"
    using n ne
    by (auto simp: settle_measure_def commit_effects_def page_reset_deps_changed_def
        recompute_deps_changed_def Let_def split: option.splits if_splits)
qed

text \<open>The component after mounting with the given data.\<close>

definition mount :: "Contribution list \<Rightarrow> table" where
  "mount d = settle None (initial_table d)"

text \<open>The handlers given to \<^verbatim>\<open>DataTable\<close> and to the filter inputs: state setters.\<close>

definition onRecordsPerPageChange :: "int \<Rightarrow> table \<Rightarrow> table" where
  "onRecordsPerPageChange n s = s\<lparr>pageSize := n\<rparr>"

definition onPageChange :: "int \<Rightarrow> table \<Rightarrow> table" where
  "onPageChange p s = s\<lparr>page := p\<rparr>"

definition onSortStatusChange :: "DataTableSortStatus \<Rightarrow> table \<Rightarrow> table" where
  "onSortStatusChange st s = s\<lparr>sortStatus := st\<rparr>"

definition setSelectedStatuses :: "string list \<Rightarrow> table \<Rightarrow> table" where
  "setSelectedStatuses sel s = s\<lparr>selectedStatuses := sel\<rparr>"

definition setDebouncedQuery :: "string \<Rightarrow> table \<Rightarrow> table" where
  "setDebouncedQuery q s = s\<lparr>debouncedQuery := q\<rparr>"

text \<open>A handler runs on the rendered state \<open>s\<close>; the renders it causes follow.\<close>

definition after_event :: "(table \<Rightarrow> table) \<Rightarrow> table \<Rightarrow> table" where
  "after_event handler s = settle (Some s) (handler s)"

text \<open>The prop \<^verbatim>\<open>totalRecords\<close> handed to \<^verbatim>\<open>DataTable\<close>.\<close>

definition totalRecords :: "table \<Rightarrow> nat" where
  "totalRecords s =
     (if debouncedQuery s \<noteq> [] \<or> length (selectedStatuses s) > 0
      then length (records s)
      else length (data s))"

subsection \<open>BuscarDeudaButton\<close>

text \<open>
  The state of one button: the three state variables and whether the interval started
  by the effect is still ticking (\<^verbatim>\<open>done\<close> is written \<open>is_done\<close>).
\<close>

record buscar =
  progress :: int
  running :: bool
  is_done :: bool
  interval_active :: bool

definition initial_buscar :: buscar where
  "initial_buscar = \<lparr>progress = 0, running = False, is_done = False, interval_active = False\<rparr>"

definition handleClick :: "buscar \<Rightarrow> buscar" where
  "handleClick s = s\<lparr>progress := 0, is_done := False, running := True\<rparr>"

text \<open>The updater that the interval passes to \<^verbatim>\<open>setProgress\<close> every 100 ms.\<close>

definition interval_callback :: "buscar \<Rightarrow> buscar" where
  "interval_callback s =
     (if progress s \<ge> 100
      then s\<lparr>interval_active := False, running := False, is_done := True, progress := 100\<rparr>
      else s\<lparr>progress := progress s + 2\<rparr>)"

text \<open>
  The effect on \<^verbatim>\<open>[running]\<close>: when \<^verbatim>\<open>running\<close> differs from the previous render,
  the cleanup of the previous run clears the interval, and the body starts a new one
  when \<^verbatim>\<open>running\<close> is true.
\<close>

definition running_effect :: "bool \<Rightarrow> buscar \<Rightarrow> buscar" where
  "running_effect prev_running s =
     (if prev_running \<noteq> running s
      then (let cleaned = s\<lparr>interval_active := False\<rparr>
            in if running s
               then cleaned\<lparr>progress := 0, is_done := False, interval_active := True\<rparr>
               else cleaned)
      else s)"

datatype buscar_event = Click | Tick

text \<open>
  A click reaches \<^verbatim>\<open>handleClick\<close> only when the button is not disabled
  (\<^verbatim>\<open>disabled={running || done}\<close>); a tick happens only while the interval is active.
\<close>

definition buscar_disabled :: "buscar \<Rightarrow> bool" where
  "buscar_disabled s \<longleftrightarrow> running s \<or> is_done s"

fun buscar_step :: "buscar \<Rightarrow> buscar_event \<Rightarrow> buscar" where
  "buscar_step s Click =
     (if buscar_disabled s then s else running_effect (running s) (handleClick s))"
| "buscar_step s Tick =
     (if interval_active s then running_effect (running s) (interval_callback s) else s)"

definition buscar_run :: "buscar_event list \<Rightarrow> buscar" where
  "buscar_run es = foldl buscar_step initial_buscar es"

datatype phase = Idle | Running | Finished

definition phase_of :: "buscar \<Rightarrow> phase" where
  "phase_of s = (if running s then Running else if is_done s then Finished else Idle)"

fun phase_rank :: "phase \<Rightarrow> nat" where
  "phase_rank Idle = 0"
| "phase_rank Running = 1"
| "phase_rank Finished = 2"

text \<open>
  What holds of every state the button reaches: the progress is an even number from 0
  to 100, the interval ticks exactly while the button is running, running and done
  exclude each other, and the only state that is neither is the initial one.
\<close>

definition buscar_inv :: "buscar \<Rightarrow> bool" where
  "buscar_inv s \<longleftrightarrow>
     0 \<le> progress s \<and> progress s \<le> 100 \<and> even (progress s) \<and>
     interval_active s = running s \<and> \<not> (running s \<and> is_done s) \<and>
     (\<not> running s \<and> \<not> is_done s \<longrightarrow> s = initial_buscar)"

text \<open>
  The column \<^verbatim>\<open>buscarDeuda\<close> renders one \<^verbatim>\<open>BuscarDeudaButton\<close> in every row of
  \<^verbatim>\<open>records\<close>, and the state above lives in that component. From one render to the
  next, the button of a row that is still among the records (rows are told apart by
  the record's \<^verbatim>\<open>id\<close>) keeps its state; the button of a row that is no longer
  rendered is unmounted and its state is gone; a row that is rendered without having
  a button gets a new one in the initial state.
\<close>

type_synonym row_buttons = "int \<Rightarrow> buscar option"

definition render_buttons :: "row_buttons \<Rightarrow> Contribution list \<Rightarrow> row_buttons" where
  "render_buttons buttons recs i =
     (if list_ex (\<lambda>r. id_num r = i) recs
      then (case buttons i of None \<Rightarrow> Some initial_buscar | Some b \<Rightarrow> Some b)
      else None)"

text \<open>Events on the button of row \<open>i\<close>, if it is mounted.\<close>

definition button_events :: "int \<Rightarrow> buscar_event list \<Rightarrow> row_buttons \<Rightarrow> row_buttons" where
  "button_events i es buttons j =
     (if j = i then map_option (\<lambda>b. foldl buscar_step b es) (buttons i) else buttons j)"

section \<open>Product editor: EditProductDrawer\<close>

text \<open>
  \<^verbatim>\<open>IProduct\<close> is declared in \<^verbatim>\<open>@/types/products\<close>, which is not among the sources;
  the record has the fields that the drawer reads, with the types of the form's initial
  values. \<^verbatim>\<open>createdById\<close> and the user's identifier (\<^verbatim>\<open>user?.id\<close>) are optional
  values, \<open>None\<close> standing for \<^verbatim>\<open>undefined\<close>.
\<close>

record IProduct =
  product_id :: string
  title :: string
  product_description :: string
  price :: int
  quantityInStock :: int
  sku :: string
  isActive :: bool
  product_status :: int
  categoryId :: string
  createdById :: "string option"

record form_values =
  form_title :: string
  form_description :: string
  form_price :: int
  form_quantityInStock :: int
  form_sku :: string
  form_isActive :: bool
  form_status :: int
  form_categoryId :: string

text \<open>What \<^verbatim>\<open>useAuth\<close> returns.\<close>

record auth =
  user_id :: "string option"
  accessToken :: string
  permissions :: "string list option"

text \<open>
  The props of the drawer: the product, and whether the optional callbacks
  \<^verbatim>\<open>onProductUpdated\<close> and \<^verbatim>\<open>onClose\<close> are supplied.
\<close>

record drawer_props =
  product :: "IProduct option"
  has_onProductUpdated :: bool
  has_onClose :: bool

record drawer =
  loading :: bool
  categories :: "(string \<times> string) list"
  categoriesLoading :: bool
  isCreator :: bool
  form :: form_values

definition canEditProduct :: "auth \<Rightarrow> bool" where
  "canEditProduct au =
     (case permissions au of None \<Rightarrow> False | Some ps \<Rightarrow> ''Permissions.Products.Edit'' \<in> set ps)"

text \<open>
  The effect on \<^verbatim>\<open>[product, user]\<close>: it fills the form and sets \<^verbatim>\<open>isCreator\<close>.
  Of the defaults \<^verbatim>\<open>x || d\<close>, only \<^verbatim>\<open>status || 1\<close> changes a value of the declared
  type (a status of 0 becomes 1).
\<close>

definition product_effect :: "drawer_props \<Rightarrow> auth \<Rightarrow> drawer \<Rightarrow> drawer" where
  "product_effect pr au s =
     (case product pr of
        None \<Rightarrow> s
      | Some p \<Rightarrow>
          s\<lparr>form :=
              \<lparr>form_title = title p, form_description = product_description p,
               form_price = price p, form_quantityInStock = quantityInStock p,
               form_sku = sku p, form_isActive = isActive p,
               form_status = (if product_status p = 0 then 1 else product_status p),
               form_categoryId = categoryId p\<rparr>,
            isCreator := (user_id au = createdById p)\<rparr>)"

text \<open>
  What the handlers do to the outside, in order: the confirmation dialog, a call of
  \<^verbatim>\<open>fetch\<close> (method, URL, bearer token, and for PUT the payload: the form values with
  \<^verbatim>\<open>modifiedById\<close>), a notification (title, message, colour), and the two callbacks.
\<close>

datatype http_method = GET | PUT | DELETE

datatype effect =
    Confirm string
  | Fetch http_method string string "(form_values \<times> string option) option"
  | Notify string string string
  | OnClose
  | OnProductUpdated

text \<open>
  What the outside answers. A value thrown inside \<^verbatim>\<open>try\<close> is an \<^verbatim>\<open>Error\<close> with its
  message or some other value. \<^verbatim>\<open>fetch\<close> rejects (a transport error) or resolves to a
  response with its \<^verbatim>\<open>ok\<close> flag and a body. Of the body, \<^verbatim>\<open>response.json()\<close>
  \<^item> rejects with an \<^verbatim>\<open>Error\<close> and its message when the body is not JSON
    (\<open>NotJson\<close>);
  \<^item> gives \<^verbatim>\<open>null\<close>, on which reading \<^verbatim>\<open>data.error\<close> throws a \<^verbatim>\<open>TypeError\<close> with
    the message of the run-time system (\<open>JsonNull\<close>);
  \<^item> gives any other JSON value (\<open>Json\<close>), whose property \<^verbatim>\<open>error\<close> is falsy
    (absent, \<^verbatim>\<open>null\<close>, \<^verbatim>\<open>false\<close>, 0 or the empty string) or truthy; \<open>Truthy m\<close>
    carries the message \<open>m\<close> that \<^verbatim>\<open>new Error\<close> makes of the value: a string that is
    not empty is its own message, any other truthy value is converted to a string.
\<close>

datatype thrown = ErrorObject string | OtherValue

datatype error_property = Falsy | Truthy string

datatype body = NotJson string | JsonNull string | Json error_property

datatype fetch_outcome = Rejects thrown | Responds bool body

text \<open>\<^verbatim>\<open>data.error || fallback\<close>, as the message of the \<^verbatim>\<open>Error\<close> made of it.\<close>

definition error_or :: "error_property \<Rightarrow> string \<Rightarrow> string" where
  "error_or e fallback = (case e of Falsy \<Rightarrow> fallback | Truthy m \<Rightarrow> m)"

text \<open>The message of the notification in the \<^verbatim>\<open>catch\<close> blocks.\<close>

definition catch_message :: "thrown \<Rightarrow> string \<Rightarrow> string" where
  "catch_message t fallback = (case t of ErrorObject m \<Rightarrow> m | OtherValue \<Rightarrow> fallback)"

text \<open>The end of both \<^verbatim>\<open>try\<close> blocks: success notification, close, refresh.\<close>

definition on_success :: "drawer_props \<Rightarrow> string \<Rightarrow> effect list" where
  "on_success pr msg =
     Notify ''Success'' msg ''green'' #
     (if has_onClose pr then [OnClose] else []) @
     (if has_onProductUpdated pr then [OnProductUpdated] else [])"

text \<open>
  \<^verbatim>\<open>handleSubmit\<close>: the guard, then \<^verbatim>\<open>try\<close> (\<open>Inl\<close> is the value thrown),
  \<^verbatim>\<open>catch\<close> and \<^verbatim>\<open>finally\<close>. The result is the state when the handler has finished and
  the effects in their order.
\<close>

definition handleSubmit ::
  "drawer_props \<Rightarrow> auth \<Rightarrow> drawer \<Rightarrow> form_values \<Rightarrow> fetch_outcome \<Rightarrow> drawer \<times> effect list" where
  "handleSubmit pr au s vals net =
     (case product pr of
        None \<Rightarrow> (s, [])
      | Some p \<Rightarrow>
          if \<not> isCreator s \<or> \<not> canEditProduct au then (s, [])
          else
            let s1 = s\<lparr>loading := True\<rparr>;
                call = Fetch PUT (''/api/products/'' @ product_id p) (accessToken au)
                         (Some (vals, user_id au));
                tried =
                  (case net of
                     Rejects t \<Rightarrow> Inl t
                   | Responds ok b \<Rightarrow>
                       (case b of
                          NotJson m \<Rightarrow> Inl (ErrorObject m)
                        | JsonNull m \<Rightarrow>
                            if \<not> ok then Inl (ErrorObject m)
                            else Inr (on_success pr ''Product updated successfully'')
                        | Json e \<Rightarrow>
                            if \<not> ok then Inl (ErrorObject (error_or e ''Failed to update product''))
                            else Inr (on_success pr ''Product updated successfully'')));
                caught =
                  (case tried of
                     Inl t \<Rightarrow> [Notify ''Error'' (catch_message t ''Failed to update product'') ''red'']
                   | Inr es \<Rightarrow> es)
            in (s1\<lparr>loading := False\<rparr>, call # caught))"

text \<open>
  \<^verbatim>\<open>handleDelete\<close>: the guard, the confirmation (\<open>confirmed\<close> is what
  \<^verbatim>\<open>window.confirm\<close> returns), then \<^verbatim>\<open>try\<close>, \<^verbatim>\<open>catch\<close> and \<^verbatim>\<open>finally\<close>. The body
  of the response is read only when the response is not ok.
\<close>

definition handleDelete ::
  "drawer_props \<Rightarrow> auth \<Rightarrow> drawer \<Rightarrow> bool \<Rightarrow> fetch_outcome \<Rightarrow> drawer \<times> effect list" where
  "handleDelete pr au s confirmed net =
     (case product pr of
        None \<Rightarrow> (s, [])
      | Some p \<Rightarrow>
          if \<not> isCreator s then (s, [])
          else if \<not> confirmed
          then (s, [Confirm ''Are you sure you want to delete this product?''])
          else
            let s1 = s\<lparr>loading := True\<rparr>;
                call = Fetch DELETE (''/api/products/'' @ product_id p) (accessToken au) None;
                tried =
                  (case net of
                     Rejects t \<Rightarrow> Inl t
                   | Responds ok b \<Rightarrow>
                       if \<not> ok
                       then (case b of
                               NotJson m \<Rightarrow> Inl (ErrorObject m)
                             | JsonNull m \<Rightarrow> Inl (ErrorObject m)
                             | Json e \<Rightarrow> Inl (ErrorObject (error_or e ''Failed to delete product'')))
                       else Inr (on_success pr ''Product deleted successfully''));
                caught =
                  (case tried of
                     Inl t \<Rightarrow> [Notify ''Error'' (catch_message t ''Failed to delete product'') ''red'']
                   | Inr es \<Rightarrow> es)
            in (s1\<lparr>loading := False\<rparr>,
                Confirm ''Are you sure you want to delete this product?'' # call # caught))"

text \<open>The state of the drawer before any effect has run.\<close>

definition initial_drawer :: drawer where
  "initial_drawer =
     \<lparr>loading = False, categories = [], categoriesLoading = False, isCreator = False,
      form =
        \<lparr>form_title = [], form_description = [], form_price = 0, form_quantityInStock = 0,
         form_sku = [], form_isActive = True, form_status = 1, form_categoryId = []\<rparr>\<rparr>"

text \<open>A submission or deletion fails on a transport error or a response that is not ok.\<close>

definition is_failure :: "fetch_outcome \<Rightarrow> bool" where
  "is_failure net = (case net of Rejects t \<Rightarrow> True | Responds ok b \<Rightarrow> \<not> ok)"

text \<open>
  The message that the specification gives the error notification of a failed
  update: the message the server provides in the response body when there is one, a
  generic message otherwise.
\<close>

definition spec_failure_message :: "fetch_outcome \<Rightarrow> string" where
  "spec_failure_message net =
     (case net of
        Responds ok (Json (Truthy m)) \<Rightarrow> m
      | _ \<Rightarrow> ''Failed to update product'')"

text \<open>Predicates on effects, used to count calls.\<close>

fun is_fetch :: "effect \<Rightarrow> bool" where
  "is_fetch (Fetch m u t b) = True"
| "is_fetch e = False"

fun is_fetch_of :: "http_method \<Rightarrow> effect \<Rightarrow> bool" where
  "is_fetch_of m (Fetch m' u t b) = (m = m')"
| "is_fetch_of m e = False"

fun is_error_notification :: "effect \<Rightarrow> bool" where
  "is_error_notification (Notify t m c) = (t = ''Error'' \<and> c = ''red'')"
| "is_error_notification e = False"

section \<open>The specification's wording of the engine\<close>

text \<open>
  The three steps as the specification words them, to be compared with \<open>paginated\<close>:
  a record is kept iff (the query is empty or the lowercased name contains the
  trimmed, lowercased query) and (no status is selected or the record's status is
  selected); the kept records are sorted stably, ascending by the sort key, and reversed
  for the descending direction; the page is the range of indices from
  \<open>(pageIndex - 1) * pageSize\<close> up to, not including, \<open>pageIndex * pageSize\<close>.
\<close>

definition spec_keep :: "string \<Rightarrow> string list \<Rightarrow> Contribution \<Rightarrow> bool" where
  "spec_keep q sel r \<longleftrightarrow>
     (q = [] \<or> sublist (toLowerCase (trim q)) (toLowerCase (name r))) \<and>
     (sel = [] \<or> status r \<in> set sel)"

definition spec_sort :: "DataTableSortStatus \<Rightarrow> Contribution list \<Rightarrow> Contribution list" where
  "spec_sort st xs =
     (let ascending =
            (case columnAccessor st of
               Name \<Rightarrow> sort_key name xs
             | PropertiesCount \<Rightarrow> sort_key propertiesCount xs)
      in case direction st of Asc \<Rightarrow> ascending | Desc \<Rightarrow> rev ascending)"

definition spec_index_range :: "'a list \<Rightarrow> int \<Rightarrow> int \<Rightarrow> 'a list" where
  "spec_index_range xs a b =
     map (\<lambda>i. xs ! nat i) (filter (\<lambda>i. 0 \<le> i \<and> i < int (length xs)) [a..b - 1])"

definition spec_visible_page ::
  "Contribution list \<Rightarrow> DataTableSortStatus \<Rightarrow> int \<Rightarrow> int \<Rightarrow> string \<Rightarrow> string list
     \<Rightarrow> Contribution list" where
  "spec_visible_page d st pageIndex psize q sel =
     spec_index_range (spec_sort st (filter (spec_keep q sel) d))
       ((pageIndex - 1) * psize) (pageIndex * psize)"

text \<open>
  A stable descending sort, by insertion: a record goes in front of the records
  whose key is not greater, hence in front of the records tied with it that
  followed it in the input.
\<close>

fun insort_desc_key :: "('a \<Rightarrow> 'k::linorder) \<Rightarrow> 'a \<Rightarrow> 'a list \<Rightarrow> 'a list" where
  "insort_desc_key f x [] = [x]"
| "insort_desc_key f x (y # ys) =
     (if f y \<le> f x then x # y # ys else y # insort_desc_key f x ys)"

definition sort_desc_key :: "('a \<Rightarrow> 'k::linorder) \<Rightarrow> 'a list \<Rightarrow> 'a list" where
  "sort_desc_key f xs = foldr (insort_desc_key f) xs []"

definition stable_sort_desc :: "columnAccessor \<Rightarrow> Contribution list \<Rightarrow> Contribution list" where
  "stable_sort_desc acc xs =
     (case acc of
        Name \<Rightarrow> sort_desc_key name xs
      | PropertiesCount \<Rightarrow> sort_desc_key propertiesCount xs)"

text \<open>Two records are tied on a sort key when they carry the same value of it.\<close>

definition tied :: "columnAccessor \<Rightarrow> Contribution \<Rightarrow> Contribution \<Rightarrow> bool" where
  "tied acc r r' =
     (case acc of
        Name \<Rightarrow> name r = name r'
      | PropertiesCount \<Rightarrow> propertiesCount r = propertiesCount r')"

definition no_ties :: "columnAccessor \<Rightarrow> Contribution list \<Rightarrow> bool" where
  "no_ties acc xs =
     (case acc of
        Name \<Rightarrow> distinct (map name xs)
      | PropertiesCount \<Rightarrow> distinct (map propertiesCount xs))"

text \<open>
  The descending output of the component for a list that is already filtered: no filter
  is active and one page holds the whole list.
\<close>

definition descending_output :: "columnAccessor \<Rightarrow> Contribution list \<Rightarrow> Contribution list" where
  "descending_output acc xs =
     paginated xs \<lparr>columnAccessor = acc, direction = Desc\<rparr> 1 (int (length xs)) [] []"

section \<open>Concrete inputs\<close>

text \<open>Two records that differ and are tied on \<^verbatim>\<open>propertiesCount\<close>.\<close>

definition tied_pair :: "Contribution list" where
  "tied_pair =
     [\<lparr>description = [], id_num = 1, name = ''Ana'', propertiesCount = 2, status = ''paid''\<rparr>,
      \<lparr>description = [], id_num = 2, name = ''Luz'', propertiesCount = 2, status = ''paid''\<rparr>]"

text \<open>Six records whose names all contain \<open>casa\<close>: one more than the first page holds.\<close>

definition six :: "Contribution list" where
  "six =
     map (\<lambda>i. \<lparr>description = [], id_num = i, name = ''Casa'', propertiesCount = i,
                status = ''pending''\<rparr>)
       [1, 2, 3, 4, 5, 6]"

text \<open>The table mounted with the six records, after the user has gone to page 2.\<close>

definition table_on_page_two :: table where
  "table_on_page_two = after_event (onPageChange 2) (mount six)"

text \<open>
  The buttons of the six records' table: on the first page; after the search of row 1
  has run to its end; after going to page 2; and after coming back to page 1.
\<close>

definition buttons_first_page :: row_buttons where
  "buttons_first_page = render_buttons (\<lambda>i. None) (records (mount six))"

definition buttons_row_one_done :: row_buttons where
  "buttons_row_one_done = button_events 1 (Click # replicate 51 Tick) buttons_first_page"

definition buttons_second_page :: row_buttons where
  "buttons_second_page = render_buttons buttons_row_one_done (records table_on_page_two)"

definition buttons_first_page_again :: row_buttons where
  "buttons_first_page_again =
     render_buttons buttons_second_page
       (records (after_event (onPageChange 1) table_on_page_two))"

text \<open>
  Four records for the filter: a capital \<open>N\<close> with tilde (U+00D1) in the last name,
  and two queries with white space at their ends, one of them a no-break space.
\<close>

definition alpha :: Contribution where
  "alpha = \<lparr>description = ''x'', id_num = 1, name = ''Alpha'', propertiesCount = 3,
             status = ''pending''\<rparr>"

definition beta :: Contribution where
  "beta = \<lparr>description = ''y'', id_num = 2, name = ''Beta'', propertiesCount = 1,
            status = ''paid''\<rparr>"

definition alfalfa :: Contribution where
  "alfalfa = \<lparr>description = ''z'', id_num = 3, name = ''alfalfa'', propertiesCount = 2,
               status = ''paid''\<rparr>"

definition penya :: Contribution where
  "penya = \<lparr>description = ''w'', id_num = 4, name = ''PE'' @ [CHR 0xD1] @ ''A'',
             propertiesCount = 5, status = ''searched''\<rparr>"

definition query_al :: string where
  "query_al = '' AL ''"

definition query_penya :: string where
  "query_penya = [CHR 0xA0] @ ''pe'' @ [CHR 0xF1] @ ''a''"

text \<open>A product created by user \<open>u1\<close>, the drawer's props for it, and two users.\<close>

definition lamp :: IProduct where
  "lamp =
     \<lparr>product_id = ''42'', title = ''Lamp'', product_description = ''Desk lamp'', price = 30,
      quantityInStock = 4, sku = ''L-1'', isActive = True, product_status = 1,
      categoryId = ''c7'', createdById = Some ''u1''\<rparr>"

definition lamp_props :: drawer_props where
  "lamp_props = \<lparr>product = Some lamp, has_onProductUpdated = True, has_onClose = True\<rparr>"

definition creator_auth :: auth where
  "creator_auth =
     \<lparr>user_id = Some ''u1'', accessToken = ''token'',
      permissions = Some [''Permissions.Products.Edit'']\<rparr>"

definition other_auth :: auth where
  "other_auth =
     \<lparr>user_id = Some ''u2'', accessToken = ''token'',
      permissions = Some [''Permissions.Products.Edit'']\<rparr>"

definition edited_values :: form_values where
  "edited_values =
     \<lparr>form_title = ''Lamp XL'', form_description = ''Desk lamp'', form_price = 35,
      form_quantityInStock = 4, form_sku = ''L-1'', form_isActive = True, form_status = 1,
      form_categoryId = ''c7''\<rparr>"

section \<open>Properties of the contributions table\<close>

subsection \<open>Filter, sort and slice\<close>

lemma includes_str_sublist: "includes_str s sub \<longleftrightarrow> sublist sub s"
  by (induction s) (simp_all add: sublist_Cons_right)

lemma filter_callback_spec_keep: "filter_callback q sel r \<longleftrightarrow> spec_keep q sel r"
  by (auto simp: filter_callback_def spec_keep_def includes_str_sublist list_ex_iff)

lemma filtered_eq:
  "(if q \<noteq> [] \<or> length sel \<noteq> 0 then filter (filter_callback q sel) d else d)
     = filter (spec_keep q sel) d"
proof (cases "q \<noteq> [] \<or> length sel \<noteq> 0")
  case True
  then show ?thesis by (simp add: filter_callback_spec_keep cong: filter_cong)
next
  case False
  then have "\<And>r. spec_keep q sel r" by (simp add: spec_keep_def)
  with False show ?thesis by simp
qed

lemma sorted_eq:
  "(if direction st = Desc then rev (sortBy xs (columnAccessor st)) else sortBy xs (columnAccessor st))
     = spec_sort st xs"
  by (cases "direction st") (simp_all add: spec_sort_def sortBy_def)

lemma paginated_unfold:
  "paginated d st p n q sel =
     slice (spec_sort st (filter (spec_keep q sel) d)) ((p - 1) * n) ((p - 1) * n + n)"
  unfolding paginated_def Let_def filtered_eq sorted_eq ..

lemma index_range_take_drop:
  "0 \<le> a \<Longrightarrow> spec_index_range xs a b = take (nat (b - a)) (drop (nat a) xs)"
proof (induction "nat (b - a)" arbitrary: b)
  case 0
  then show ?case by (simp add: spec_index_range_def)
next
  case (Suc n)
  then have ab: "a \<le> b - 1" and n: "n = nat (b - 1 - a)" by linarith+
  have IH: "spec_index_range xs a (b - 1) = take (nat (b - 1 - a)) (drop (nat a) xs)"
    using Suc.hyps(1)[OF n Suc.prems] .
  have split: "[a..b - 1] = [a..b - 1 - 1] @ [b - 1]"
    using ab by (rule upto_rec2)
  have suc: "nat (b - a) = Suc (nat (b - 1 - a))" using ab by linarith
  show ?case
  proof (cases "b - 1 < int (length xs)")
    case True
    then have lt: "nat (b - 1 - a) < length (drop (nat a) xs)"
      using ab Suc.prems by simp
    have idx: "nat a + nat (b - 1 - a) = nat (b - 1)"
      using ab Suc.prems by linarith
    have nth: "drop (nat a) xs ! nat (b - 1 - a) = xs ! nat (b - 1)"
    proof -
      have "nat a \<le> length xs" using True ab Suc.prems by linarith
      then have "drop (nat a) xs ! nat (b - 1 - a) = xs ! (nat a + nat (b - 1 - a))"
        by (rule nth_drop)
      then show ?thesis by (simp only: idx)
    qed
    show ?thesis
      using IH True ab Suc.prems
      unfolding suc take_Suc_conv_app_nth[OF lt] nth
      by (simp add: spec_index_range_def split)
  next
    case False
    then have ge: "length (drop (nat a) xs) \<le> nat (b - 1 - a)"
      using ab Suc.prems by simp
    show ?thesis
      using IH False ge unfolding suc
      by (simp add: spec_index_range_def split)
  qed
qed

lemma slice_take_drop:
  assumes "0 \<le> a" "a \<le> b"
  shows "slice xs a b = take (nat (b - a)) (drop (nat a) xs)"
proof (cases "a < int (length xs)")
  case True
  show ?thesis
  proof (cases "b \<le> int (length xs)")
    case True
    with assms \<open>a < int (length xs)\<close> show ?thesis
      by (simp add: slice_def Let_def min_def)
  next
    case False
    with assms True have "length (drop (nat a) xs) \<le> nat (int (length xs) - a)"
      and "length (drop (nat a) xs) \<le> nat (b - a)" by simp_all
    with assms True False show ?thesis
      by (simp add: slice_def Let_def min_def)
  qed
next
  case False
  with assms show ?thesis by (simp add: slice_def Let_def min_def)
qed

lemma length_slice: "0 \<le> b - a \<Longrightarrow> length (slice xs a b) \<le> nat (b - a)"
  by (auto simp: slice_def Let_def min_def max_def)

lemma set_slice: "set (slice xs a b) \<subseteq> set xs"
  by (auto simp: slice_def Let_def dest!: in_set_takeD in_set_dropD)

lemma set_spec_sort: "set (spec_sort st xs) = set xs"
  by (cases "columnAccessor st"; cases "direction st") (simp_all add: spec_sort_def)

lemma rev_dropWhile_takeWhile:
  "rev (dropWhile P (rev t)) @ rev (takeWhile P (rev t)) = t"
proof -
  have "rev (dropWhile P (rev t)) @ rev (takeWhile P (rev t))
          = rev (takeWhile P (rev t) @ dropWhile P (rev t))"
    by (simp only: rev_append)
  also have "\<dots> = rev (rev t)" by (simp only: takeWhile_dropWhile_id)
  also have "\<dots> = t" by (rule rev_rev_ident)
  finally show ?thesis .
qed

lemma trim_append_trailing:
  "trim s @ rev (takeWhile is_white_space (rev (dropWhile is_white_space s)))
     = dropWhile is_white_space s"
  unfolding trim_def by (rule rev_dropWhile_takeWhile)

lemma trim_decomposition:
  "\<exists>pre post. s = pre @ trim s @ post \<and> list_all is_white_space pre \<and> list_all is_white_space post"
proof (intro exI conjI)
  show "s = takeWhile is_white_space s @ trim s @
              rev (takeWhile is_white_space (rev (dropWhile is_white_space s)))"
    by (simp only: trim_append_trailing takeWhile_dropWhile_id)
  show "list_all is_white_space (takeWhile is_white_space s)"
    by (auto simp: list_all_iff dest: set_takeWhileD)
  show "list_all is_white_space (rev (takeWhile is_white_space (rev (dropWhile is_white_space s))))"
    by (auto simp: list_all_iff dest: set_takeWhileD)
qed

lemma trim_ends:
  assumes "trim s \<noteq> []"
  shows "\<not> is_white_space (hd (trim s))" and "\<not> is_white_space (last (trim s))"
proof -
  let ?t = "dropWhile is_white_space s"
  let ?u = "dropWhile is_white_space (rev ?t)"
  have u: "?u \<noteq> []"
  proof
    assume "?u = []"
    then have "rev ?u = []" by (simp only: rev.simps)
    then have "trim s = []" by (simp only: trim_def)
    with assms show False by contradiction
  qed
  note n = hd_dropWhile[OF u]
  have l: "last (trim s) = hd ?u" unfolding trim_def by (rule last_rev)
  show "\<not> is_white_space (last (trim s))" unfolding l by (rule n)
  have "hd (trim s @ rev (takeWhile is_white_space (rev ?t))) = hd (trim s)"
    using assms by (rule hd_append2)
  then have h: "hd ?t = hd (trim s)" by (simp only: trim_append_trailing)
  have "?t \<noteq> []"
  proof
    assume "?t = []"
    then have "trim s = []" by (simp only: trim_def rev.simps dropWhile.simps)
    with assms show False by contradiction
  qed
  from hd_dropWhile[OF this] show "\<not> is_white_space (hd (trim s))" unfolding h .
qed

text \<open>
  Claim C1. For every record array and query state with a page index of at least 1 and
  a page size that is not negative, the page that the recompute effect hands to
  \<^verbatim>\<open>setRecords\<close> is the result of the three steps in their fixed order: keep a record
  iff (the query is empty or the lowercased name contains the trimmed, lowercased query
  as a substring) and (no status is selected or the record's status is selected);
  sort the kept records stably, ascending by the sort key, and reverse them when the
  direction is descending; take the index range from \<open>(page - 1) * pageSize\<close> up to,
  not including, \<open>page * pageSize\<close>. The trimmed query is the query without the
  white space at its two ends: what is cut off on either side is white space, and
  what remains neither starts nor ends with white space.
\<close>

theorem visible_page_filter_sort_slice:
  assumes "1 \<le> p" and "0 \<le> n"
  shows "paginated d st p n q sel = spec_visible_page d st p n q sel \<and>
         (\<exists>pre post. q = pre @ trim q @ post \<and>
            list_all is_white_space pre \<and> list_all is_white_space post) \<and>
         (trim q = [] \<or>
            \<not> is_white_space (hd (trim q)) \<and> \<not> is_white_space (last (trim q)))"
proof (intro conjI)
  have a: "0 \<le> (p - 1) * n" using assms by simp
  have b: "(p - 1) * n + n = p * n" by (simp add: algebra_simps)
  have c: "(p - 1) * n \<le> p * n" using assms(2) unfolding b[symmetric] by simp
  show "paginated d st p n q sel = spec_visible_page d st p n q sel"
    unfolding paginated_unfold spec_visible_page_def b
    by (simp only: slice_take_drop[OF a c] index_range_take_drop[OF a])
  show "\<exists>pre post. q = pre @ trim q @ post \<and>
            list_all is_white_space pre \<and> list_all is_white_space post"
    by (rule trim_decomposition)
  show "trim q = [] \<or>
            \<not> is_white_space (hd (trim q)) \<and> \<not> is_white_space (last (trim q))"
    using trim_ends[of q] by (cases "trim q = []") simp_all
qed

theorem visible_page_filter_sort_slice_witness:
  "(1::int) \<le> 2 \<and> (0::int) \<le> 1 \<and> (1::int) \<le> 1 \<and> (0::int) \<le> 5 \<and>
   trim query_al = ''AL'' \<and>
   paginated [alpha, beta, alfalfa, penya] \<lparr>columnAccessor = Name, direction = Desc\<rparr> 2 1
     query_al [''paid'', ''pending''] = [alpha] \<and>
   spec_visible_page [alpha, beta, alfalfa, penya] \<lparr>columnAccessor = Name, direction = Desc\<rparr> 2 1
     query_al [''paid'', ''pending''] = [alpha] \<and>
   paginated [alpha, beta, alfalfa, penya] \<lparr>columnAccessor = PropertiesCount, direction = Asc\<rparr> 1 5
     query_penya [] = [penya] \<and>
   spec_visible_page [alpha, beta, alfalfa, penya]
     \<lparr>columnAccessor = PropertiesCount, direction = Asc\<rparr> 1 5 query_penya [] = [penya]"
proof -
  have h1: "(1::int) \<le> 2" and h2: "(0::int) \<le> 1" and h3: "(1::int) \<le> 1" and h4: "(0::int) \<le> 5"
    by simp_all
  have t: "trim query_al = ''AL''" by code_simp
  have a: "paginated [alpha, beta, alfalfa, penya] \<lparr>columnAccessor = Name, direction = Desc\<rparr> 2 1
     query_al [''paid'', ''pending''] = [alpha]"
    by code_simp
  have b: "paginated [alpha, beta, alfalfa, penya] \<lparr>columnAccessor = PropertiesCount, direction = Asc\<rparr> 1 5
     query_penya [] = [penya]"
    by code_simp
  have a': "spec_visible_page [alpha, beta, alfalfa, penya] \<lparr>columnAccessor = Name, direction = Desc\<rparr> 2 1
     query_al [''paid'', ''pending''] = [alpha]"
    unfolding visible_page_filter_sort_slice[OF h1 h2, THEN conjunct1, symmetric] by (rule a)
  have b': "spec_visible_page [alpha, beta, alfalfa, penya]
     \<lparr>columnAccessor = PropertiesCount, direction = Asc\<rparr> 1 5 query_penya [] = [penya]"
    unfolding visible_page_filter_sort_slice[OF h3 h4, THEN conjunct1, symmetric] by (rule b)
  show ?thesis
    by (rule conjI[OF h1 conjI[OF h2 conjI[OF h3 conjI[OF h4 conjI[OF t conjI[OF a
          conjI[OF a' conjI[OF b b']]]]]]]])
qed

text \<open>
  Claim C2, as amended. For every record array and query state (page size not
  negative), the engine returns at most \<open>pageSize\<close> records, and every returned record
  passes the active filters: its lowercased name contains the trimmed, lowercased query
  when a query is entered, and its status is among the selected ones when statuses are
  selected. For the two records Alpha (pending) and Beta (paid), the query \<open>al\<close>, no
  status, ascending by name, page 1 of size 10, the output is the record with id 1 alone.
\<close>

theorem page_bounded_and_filtered:
  "(0 \<le> n \<longrightarrow>
      length (paginated d st p n q sel) \<le> nat n \<and>
      (\<forall>r \<in> set (paginated d st p n q sel).
         (q = [] \<or> sublist (toLowerCase (trim q)) (toLowerCase (name r))) \<and>
         (sel = [] \<or> status r \<in> set sel))) \<and>
   paginated
     [\<lparr>description = d1, id_num = 1, name = ''Alpha'', propertiesCount = c1, status = ''pending''\<rparr>,
      \<lparr>description = d2, id_num = 2, name = ''Beta'', propertiesCount = c2, status = ''paid''\<rparr>]
     \<lparr>columnAccessor = Name, direction = Asc\<rparr> 1 10 ''al'' []
   = [\<lparr>description = d1, id_num = 1, name = ''Alpha'', propertiesCount = c1, status = ''pending''\<rparr>]"
proof (intro conjI impI ballI)
  assume n: "0 \<le> n"
  then have "0 \<le> ((p - 1) * n + n) - (p - 1) * n" by simp
  from length_slice[OF this] show "length (paginated d st p n q sel) \<le> nat n"
    unfolding paginated_unfold by simp
next
  fix r assume "r \<in> set (paginated d st p n q sel)"
  then have "r \<in> set (spec_sort st (filter (spec_keep q sel) d))"
    unfolding paginated_unfold using set_slice by (rule set_mp[rotated])
  then have "r \<in> set (filter (spec_keep q sel) d)"
    by (simp only: set_spec_sort)
  then have k: "spec_keep q sel r" by simp
  from k show "q = [] \<or> sublist (toLowerCase (trim q)) (toLowerCase (name r))"
    by (simp add: spec_keep_def)
  from k show "sel = [] \<or> status r \<in> set sel"
    by (simp add: spec_keep_def)
next
  show "paginated
     [\<lparr>description = d1, id_num = 1, name = ''Alpha'', propertiesCount = c1, status = ''pending''\<rparr>,
      \<lparr>description = d2, id_num = 2, name = ''Beta'', propertiesCount = c2, status = ''paid''\<rparr>]
     \<lparr>columnAccessor = Name, direction = Asc\<rparr> 1 10 ''al'' []
   = [\<lparr>description = d1, id_num = 1, name = ''Alpha'', propertiesCount = c1, status = ''pending''\<rparr>]"
    by code_simp
qed

theorem page_bounded_and_filtered_witness:
  "(0::int) \<le> 5 \<and>
   paginated six \<lparr>columnAccessor = Name, direction = Asc\<rparr> 1 5 ''casa'' [] = take 5 six \<and>
   length (filter (filter_callback ''casa'' []) six) = 6 \<and>
   length (paginated six \<lparr>columnAccessor = Name, direction = Asc\<rparr> 1 5 ''casa'' []) \<le> nat 5"
proof -
  have h: "(0::int) \<le> 5" by simp
  have e: "paginated six \<lparr>columnAccessor = Name, direction = Asc\<rparr> 1 5 ''casa'' [] = take 5 six"
    by code_simp
  have m: "length (filter (filter_callback ''casa'' []) six) = 6" by code_simp
  have "(0::int) \<le> 5 \<longrightarrow>
      length (paginated six \<lparr>columnAccessor = Name, direction = Asc\<rparr> 1 5 ''casa'' []) \<le> nat 5 \<and>
      (\<forall>r \<in> set (paginated six \<lparr>columnAccessor = Name, direction = Asc\<rparr> 1 5 ''casa'' []).
         (''casa'' = [] \<or> sublist (toLowerCase (trim ''casa'')) (toLowerCase (name r))) \<and>
         (([]::string list) = [] \<or> status r \<in> set []))"
    by (rule page_bounded_and_filtered [THEN conjunct1])
  from this h have
    "length (paginated six \<lparr>columnAccessor = Name, direction = Asc\<rparr> 1 5 ''casa'' []) \<le> nat 5 \<and>
      (\<forall>r \<in> set (paginated six \<lparr>columnAccessor = Name, direction = Asc\<rparr> 1 5 ''casa'' []).
         (''casa'' = [] \<or> sublist (toLowerCase (trim ''casa'')) (toLowerCase (name r))) \<and>
         (([]::string list) = [] \<or> status r \<in> set []))"
    by (rule mp)
  then have l: "length (paginated six \<lparr>columnAccessor = Name, direction = Asc\<rparr> 1 5 ''casa'' []) \<le> nat 5"
    by (rule conjunct1)
  show ?thesis by (rule conjI[OF h conjI[OF e conjI[OF m l]]])
qed

text \<open>
  Claim C2 as stated fails for a query with white space at its ends: for the query
  \<open>AL\<close> with a space on either side the engine returns Alpha, whose lowercased name
  does not contain the lowercased query, only the trimmed one.
\<close>

theorem untrimmed_query_counterexample:
  "paginated [alpha, beta] \<lparr>columnAccessor = Name, direction = Asc\<rparr> 1 10 query_al [] = [alpha] \<and>
   \<not> sublist (toLowerCase query_al) (toLowerCase (name alpha))"
  by code_simp

subsection \<open>StatusBadge\<close>

text \<open>
  Claim C10. The status badge is defined for every status string: orange and
  \<open>Buscado\<close> for \<open>searched\<close>, blue and \<open>Pendiente\<close> for \<open>pending\<close>, green and \<open>Pagado\<close>
  for \<open>paid\<close>, and gray and \<open>Sin estado\<close> for every other value, so that a record
  whose status is outside the declared enumeration still gets a badge.
\<close>

theorem StatusBadge_total:
  "StatusBadge ''searched'' = \<lparr>badge_color = ''orange'', badge_text = ''Buscado''\<rparr> \<and>
   StatusBadge ''pending'' = \<lparr>badge_color = ''blue'', badge_text = ''Pendiente''\<rparr> \<and>
   StatusBadge ''paid'' = \<lparr>badge_color = ''green'', badge_text = ''Pagado''\<rparr> \<and>
   (\<forall>st. st \<notin> {''searched'', ''pending'', ''paid''} \<longrightarrow>
      StatusBadge st = \<lparr>badge_color = ''gray'', badge_text = ''Sin estado''\<rparr>)"
  by (simp add: StatusBadge_def)

theorem StatusBadge_total_witness:
  "''overdue'' \<notin> {''searched'', ''pending'', ''paid''} \<and>
   StatusBadge ''overdue'' = \<lparr>badge_color = ''gray'', badge_text = ''Sin estado''\<rparr>"
proof -
  have h: "''overdue'' \<notin> {''searched'', ''pending'', ''paid''}" by simp
  have "''overdue'' \<notin> {''searched'', ''pending'', ''paid''} \<longrightarrow>
      StatusBadge ''overdue'' = \<lparr>badge_color = ''gray'', badge_text = ''Sin estado''\<rparr>"
    using StatusBadge_total by (elim conjE allE)
  with h show ?thesis by (intro conjI) (rule h, erule mp)
qed

subsection \<open>Descending order and ties\<close>

lemma set_insort_desc_key: "set (insort_desc_key f x ys) = insert x (set ys)"
  by (induction ys) auto

lemma set_sort_desc_key: "set (sort_desc_key f xs) = set xs"
  by (induction xs) (simp_all add: sort_desc_key_def set_insort_desc_key)

lemma length_insort_desc_key: "length (insort_desc_key f x ys) = Suc (length ys)"
  by (induction ys) auto

lemma length_sort_desc_key: "length (sort_desc_key f xs) = length xs"
  by (induction xs) (simp_all add: sort_desc_key_def length_insort_desc_key)

lemma descending_insort_desc_key:
  "sorted_wrt (\<lambda>a b. f b \<le> f a) ys \<Longrightarrow> sorted_wrt (\<lambda>a b. f b \<le> f a) (insort_desc_key f x ys)"
  by (induction ys) (auto simp: set_insort_desc_key)

lemma descending_sort_desc_key: "sorted_wrt (\<lambda>a b. f b \<le> f a) (sort_desc_key f xs)"
  by (induction xs) (simp_all add: sort_desc_key_def descending_insort_desc_key)

lemma filter_insort_desc_key_other:
  "f x \<noteq> k \<Longrightarrow> filter (\<lambda>y. f y = k) (insort_desc_key f x ys) = filter (\<lambda>y. f y = k) ys"
  by (induction ys) auto

lemma filter_insort_desc_key_same:
  "sorted_wrt (\<lambda>a b. f b \<le> f a) ys \<Longrightarrow>
   filter (\<lambda>y. f y = f x) (insort_desc_key f x ys) = x # filter (\<lambda>y. f y = f x) ys"
proof (induction ys)
  case Nil
  then show ?case by simp
next
  case (Cons y ys)
  show ?case
  proof (cases "f y \<le> f x")
    case True
    then show ?thesis by simp
  next
    case False
    then have "f y \<noteq> f x" by auto
    with False Cons show ?thesis by simp
  qed
qed

lemma sort_desc_key_stable:
  "filter (\<lambda>y. f y = k) (sort_desc_key f xs) = filter (\<lambda>y. f y = k) xs"
proof (induction xs)
  case Nil
  then show ?case by (simp add: sort_desc_key_def)
next
  case (Cons x xs)
  have unfold: "sort_desc_key f (x # xs) = insort_desc_key f x (sort_desc_key f xs)"
    by (simp add: sort_desc_key_def)
  show ?case
  proof (cases "f x = k")
    case True
    from filter_insort_desc_key_same[OF descending_sort_desc_key, of f x xs] Cons True
    show ?thesis unfolding unfold by simp
  next
    case False
    with Cons show ?thesis unfolding unfold by (simp add: filter_insort_desc_key_other)
  qed
qed

lemma distinct_insort_desc_key:
  "distinct (map f (insort_desc_key f x ys)) = distinct (map f (x # ys))"
  by (induction ys) (auto simp: set_insort_desc_key)

lemma distinct_sort_desc_key: "distinct (map f (sort_desc_key f xs)) = distinct (map f xs)"
  by (induction xs)
    (simp_all add: sort_desc_key_def distinct_insort_desc_key
      set_sort_desc_key[unfolded sort_desc_key_def])

lemma rev_fixed_distinct:
  assumes "rev ys = ys" and "distinct ys"
  shows "length ys \<le> 1"
proof (rule ccontr)
  assume "\<not> length ys \<le> 1"
  then have len: "2 \<le> length ys" by simp
  then have i0: "0 < length ys" and il: "length ys - 1 < length ys" by linarith+
  have "rev ys ! 0 = ys ! (length ys - 1)"
    using i0 by (simp add: rev_nth)
  then have "ys ! 0 = ys ! (length ys - 1)"
    by (simp only: assms(1))
  then have "0 = length ys - 1"
    using assms(2) i0 il by (simp only: nth_eq_iff_index_eq)
  with len show False by linarith
qed

lemma distinct_map_sort_key: "distinct (map f (sort_key f xs)) = distinct (map f xs)"
  by (induction xs) (simp_all add: distinct_insort_key)

lemma short_list_members_equal:
  "length ys \<le> 1 \<Longrightarrow> x \<in> set ys \<Longrightarrow> y \<in> set ys \<Longrightarrow> x = y"
  by (cases ys) auto

lemma reverse_ascending_is_stable_descending_iff:
  assumes "distinct xs"
  shows "rev (sort_key f xs) = sort_desc_key f xs \<longleftrightarrow> distinct (map f xs)"
proof
  assume eq: "rev (sort_key f xs) = sort_desc_key f xs"
  show "distinct (map f xs)"
  proof (rule ccontr)
    assume "\<not> distinct (map f xs)"
    with assms have "\<not> inj_on f (set xs)" by (simp add: distinct_map)
    then obtain x y where xy: "x \<in> set xs" "y \<in> set xs" "f x = f y" "x \<noteq> y"
      by (auto simp: inj_on_def)
    let ?F = "filter (\<lambda>z. f z = f x) xs"
    have "filter (\<lambda>z. f z = f x) (rev (sort_key f xs)) = rev ?F"
      by (simp only: rev_filter[symmetric] sort_key_stable)
    moreover have "filter (\<lambda>z. f z = f x) (sort_desc_key f xs) = ?F"
      by (rule sort_desc_key_stable)
    ultimately have "rev ?F = ?F" using eq by simp
    moreover have "distinct ?F" using assms by simp
    ultimately have "length ?F \<le> 1" by (rule rev_fixed_distinct)
    moreover have "x \<in> set ?F" "y \<in> set ?F" using xy by simp_all
    ultimately have "x = y" by (rule short_list_members_equal)
    with xy(4) show False by contradiction
  qed
next
  assume d: "distinct (map f xs)"
  have "rev (sort_desc_key f xs) = sort_key f xs"
  proof (rule map_sorted_distinct_set_unique[where f = f])
    show "inj_on f (set (rev (sort_desc_key f xs)) \<union> set (sort_key f xs))"
      using d by (simp add: set_sort_desc_key distinct_map)
    show "sorted (map f (rev (sort_desc_key f xs)))"
      using descending_sort_desc_key[of f xs]
      by (simp add: rev_map[symmetric] sorted_wrt_rev sorted_wrt_map)
    show "distinct (map f (rev (sort_desc_key f xs)))"
      by (simp only: rev_map[symmetric] distinct_rev distinct_sort_desc_key d)
    show "sorted (map f (sort_key f xs))" by simp
    show "distinct (map f (sort_key f xs))" using d by (simp only: distinct_map_sort_key)
    show "set (rev (sort_desc_key f xs)) = set (sort_key f xs)"
      by (simp add: set_sort_desc_key)
  qed
  then have "rev (rev (sort_desc_key f xs)) = rev (sort_key f xs)" by (rule arg_cong)
  then show "rev (sort_key f xs) = sort_desc_key f xs" by simp
qed


lemma slice_whole: "slice xs 0 (0 + int (length xs)) = xs"
  by (simp add: slice_def)

lemma descending_output_eq: "descending_output acc xs = rev (sortBy xs acc)"
proof -
  have "length (rev (sortBy xs acc)) = length xs"
    by (cases acc) (simp_all add: sortBy_def)
  with slice_whole[of "rev (sortBy xs acc)"] show ?thesis
    by (simp add: descending_output_def paginated_def)
qed

lemma filter_tied_Name: "filter (tied Name r) xs = filter (\<lambda>y. name y = name r) xs"
  by (rule filter_cong) (auto simp: tied_def)

lemma filter_tied_PropertiesCount:
  "filter (tied PropertiesCount r) xs = filter (\<lambda>y. propertiesCount y = propertiesCount r) xs"
  by (rule filter_cong) (auto simp: tied_def)

text \<open>
  Claim C7. For every filtered record list and sort key, the descending output is the
  reverse of the stable ascending sort. For a list of pairwise different records it is
  the stable descending sort exactly when no two records are tied on the key: the
  records tied with a given record come out in the reverse of their input order,
  whereas a stable descending sort keeps their input order.
\<close>

theorem descending_is_reversed_ascending:
  "descending_output acc xs = rev (sortBy xs acc) \<and>
   (distinct xs \<longrightarrow> (descending_output acc xs = stable_sort_desc acc xs \<longleftrightarrow> no_ties acc xs)) \<and>
   filter (tied acc r) (descending_output acc xs) = rev (filter (tied acc r) xs) \<and>
   filter (tied acc r) (stable_sort_desc acc xs) = filter (tied acc r) xs"
proof (intro conjI impI)
  show "descending_output acc xs = rev (sortBy xs acc)" by (rule descending_output_eq)
next
  assume "distinct xs"
  then show "descending_output acc xs = stable_sort_desc acc xs \<longleftrightarrow> no_ties acc xs"
    unfolding descending_output_eq
    by (cases acc)
      (simp_all only: sortBy_def stable_sort_desc_def no_ties_def columnAccessor.case
        reverse_ascending_is_stable_descending_iff)
next
  show "filter (tied acc r) (descending_output acc xs) = rev (filter (tied acc r) xs)"
    unfolding descending_output_eq
    by (cases acc)
      (simp_all only: filter_tied_Name filter_tied_PropertiesCount sortBy_def
        columnAccessor.case rev_filter[symmetric] sort_key_stable)
next
  show "filter (tied acc r) (stable_sort_desc acc xs) = filter (tied acc r) xs"
    by (cases acc)
      (simp_all only: filter_tied_Name filter_tied_PropertiesCount stable_sort_desc_def
        columnAccessor.case sort_desc_key_stable)
qed

theorem descending_is_reversed_ascending_witness:
  "distinct tied_pair \<and> \<not> no_ties PropertiesCount tied_pair \<and>
   descending_output PropertiesCount tied_pair \<noteq> stable_sort_desc PropertiesCount tied_pair"
proof -
  have d: "distinct tied_pair" by (simp add: tied_pair_def)
  have t: "\<not> no_ties PropertiesCount tied_pair" by (simp add: tied_pair_def no_ties_def)
  have "distinct tied_pair \<longrightarrow>
          (descending_output PropertiesCount tied_pair = stable_sort_desc PropertiesCount tied_pair
             \<longleftrightarrow> no_ties PropertiesCount tied_pair)"
    using descending_is_reversed_ascending[of PropertiesCount tied_pair "hd tied_pair"]
    by (elim conjE)
  with d t show ?thesis by (intro conjI) (assumption, assumption, elim impE, assumption, simp)
qed

subsection \<open>Renders and effects of the table\<close>

lemma settle_fix: "commit_effects prev cur = cur \<Longrightarrow> settle prev cur = cur"
  by (subst settle.simps) (simp add: Let_def)

lemma settle_step:
  "commit_effects prev cur \<noteq> cur \<Longrightarrow> settle prev cur = settle (Some cur) (commit_effects prev cur)"
  by (subst settle.simps) (simp add: Let_def)

lemma commit_effects_pageSize: "pageSize (commit_effects prev cur) = pageSize cur"
  by (simp add: commit_effects_def Let_def)

lemma commit_effects_same_pageSize:
  "pageSize p = pageSize c \<Longrightarrow>
   commit_effects (Some p) c = c \<or>
   commit_effects (Some p) c =
     c\<lparr>records := paginated (data c) (sortStatus c) (page c) (pageSize c)
                     (debouncedQuery c) (selectedStatuses c)\<rparr>"
  by (simp add: commit_effects_def Let_def page_reset_deps_changed_def)

lemma commit_effects_records_only:
  "commit_effects (Some c) (c\<lparr>records := rs\<rparr>) = c\<lparr>records := rs\<rparr>"
  by (simp add: commit_effects_def Let_def page_reset_deps_changed_def recompute_deps_changed_def)

lemma settle_third_render:
  assumes "pageSize p = pageSize c"
  shows "settle (Some c) (commit_effects (Some p) c) = commit_effects (Some p) c"
proof -
  from commit_effects_same_pageSize[OF assms]
  show ?thesis
  proof
    assume e: "commit_effects (Some p) c = c"
    have "commit_effects (Some c) c = c"
      by (simp add: commit_effects_def Let_def page_reset_deps_changed_def recompute_deps_changed_def)
    then show ?thesis unfolding e by (rule settle_fix)
  next
    assume e: "commit_effects (Some p) c =
     c\<lparr>records := paginated (data c) (sortStatus c) (page c) (pageSize c)
                     (debouncedQuery c) (selectedStatuses c)\<rparr>"
    show ?thesis unfolding e by (rule settle_fix) (rule commit_effects_records_only)
  qed
qed

lemma settle_unfold:
  "settle prev cur =
     (let c1 = commit_effects prev cur
      in if c1 = cur then cur
         else let c2 = commit_effects (Some cur) c1
              in if c2 = c1 then c1 else c2)"
proof (cases "commit_effects prev cur = cur")
  case True
  then show ?thesis by (simp add: settle_fix)
next
  case False
  let ?c1 = "commit_effects prev cur"
  have ps: "pageSize cur = pageSize ?c1" by (simp add: commit_effects_pageSize)
  show ?thesis
  proof (cases "commit_effects (Some cur) ?c1 = ?c1")
    case True
    with False show ?thesis by (simp add: settle_step settle_fix)
  next
    case ne: False
    have "settle prev cur = settle (Some cur) ?c1" using False by (rule settle_step)
    also have "\<dots> = settle (Some ?c1) (commit_effects (Some cur) ?c1)" using ne by (rule settle_step)
    also have "\<dots> = commit_effects (Some cur) ?c1" using ps by (rule settle_third_render)
    finally have r: "settle prev cur = commit_effects (Some cur) ?c1" .
    show ?thesis unfolding r by (simp only: Let_def False ne if_False)
  qed
qed

text \<open>
  Claim C8, as amended. Whenever the page size changes, the renders that follow end in
  a state whose page index is 1, whose page size is the new one and whose visible page
  is the first page at the new size: no change of the page size leaves a page index
  greater than 1 in effect. (The recompute effect of the render in which the page size
  changes still reads the page index of that render; the render that follows recomputes
  with page index 1.)
\<close>

theorem pageSize_change_resets_page:
  assumes "n \<noteq> pageSize s"
  shows "page (after_event (onRecordsPerPageChange n) s) = 1 \<and>
         pageSize (after_event (onRecordsPerPageChange n) s) = n \<and>
         records (after_event (onRecordsPerPageChange n) s) =
           paginated (data s) (sortStatus s) 1 n (debouncedQuery s) (selectedStatuses s)"
proof -
  let ?s' = "s\<lparr>pageSize := n\<rparr>"
  let ?P = "\<lambda>p. paginated (data s) (sortStatus s) p n (debouncedQuery s) (selectedStatuses s)"
  have c1: "commit_effects (Some s) ?s' = s\<lparr>pageSize := n, page := 1, records := ?P (page s)\<rparr>"
    using assms
    by (simp add: commit_effects_def Let_def page_reset_deps_changed_def recompute_deps_changed_def)
  let ?c1 = "s\<lparr>pageSize := n, page := 1, records := ?P (page s)\<rparr>"
  have c2: "commit_effects (Some ?s') ?c1 =
              (if page s \<noteq> 1 then s\<lparr>pageSize := n, page := 1, records := ?P 1\<rparr> else ?c1)"
    by (simp add: commit_effects_def Let_def page_reset_deps_changed_def recompute_deps_changed_def)
  have "after_event (onRecordsPerPageChange n) s =
          (if ?c1 = ?s' then ?s'
           else if page s \<noteq> 1 then s\<lparr>pageSize := n, page := 1, records := ?P 1\<rparr> else ?c1)"
    unfolding after_event_def onRecordsPerPageChange_def settle_unfold[of "Some s" ?s'] c1 Let_def c2
    by simp
  moreover have "?c1 = ?s' \<Longrightarrow> page s = 1 \<and> records s = ?P 1"
  proof -
    assume e: "?c1 = ?s'"
    from arg_cong[OF e, of page] have p: "page s = 1" by simp
    from arg_cong[OF e, of records] p show ?thesis by simp
  qed
  ultimately show ?thesis by (auto split: if_splits)
qed


theorem pageSize_change_resets_page_witness:
  "10 \<noteq> pageSize table_on_page_two \<and>
   page table_on_page_two = 2 \<and>
   page (after_event (onRecordsPerPageChange 10) table_on_page_two) = 1 \<and>
   records (after_event (onRecordsPerPageChange 10) table_on_page_two) = six"
proof -
  have h: "10 \<noteq> pageSize table_on_page_two" by code_simp
  have p2: "page table_on_page_two = 2" by code_simp
  have d: "data table_on_page_two = six" "sortStatus table_on_page_two = \<lparr>columnAccessor = Name, direction = Asc\<rparr>"
    "debouncedQuery table_on_page_two = []" "selectedStatuses table_on_page_two = []"
    by code_simp+
  have e: "paginated six \<lparr>columnAccessor = Name, direction = Asc\<rparr> 1 10 [] [] = six" by code_simp
  from pageSize_change_resets_page[OF h] h p2 show ?thesis
    by (simp only: d e simp_thms)
qed

text \<open>
  Claim C8 as stated fails: the page index is not yet 1 when the next visible page is
  computed. With six records shown five per page and the table on page 2, a change of
  the page size to 10 makes the recompute effect read page index 2 and hand the
  empty range from index 10 to \<^verbatim>\<open>setRecords\<close>, not the first page.
\<close>

theorem first_recompute_reads_old_page_counterexample:
  "page table_on_page_two = 2 \<and>
   records (commit_effects (Some table_on_page_two)
              (onRecordsPerPageChange 10 table_on_page_two)) = [] \<and>
   records (commit_effects (Some table_on_page_two)
              (onRecordsPerPageChange 10 table_on_page_two)) \<noteq>
     paginated (data table_on_page_two) (sortStatus table_on_page_two) 1 10
       (debouncedQuery table_on_page_two) (selectedStatuses table_on_page_two)"
  by code_simp

text \<open>
  Claim C3 on the code. With six records that all match the query \<open>casa\<close> and a page
  size of 5, the total handed to the table is 5, the length of the visible page, while
  six records match the filter.
\<close>

theorem totalRecords_is_page_length:
  "totalRecords (after_event (setDebouncedQuery ''casa'') (mount six)) = 5 \<and>
   length (filter (filter_callback ''casa'' []) six) = 6"
  by code_simp

theorem totalRecords_is_page_length_witness:
  "totalRecords (after_event (setDebouncedQuery ''casa'') (mount six))
     < length (filter (filter_callback ''casa'' []) six)"
proof -
  have "(5::nat) < 6" by simp
  then show ?thesis
    by (simp only: totalRecords_is_page_length[THEN conjunct1]
        totalRecords_is_page_length[THEN conjunct2])
qed

section \<open>Properties of BuscarDeudaButton\<close>

lemma buscar_inv_initial: "buscar_inv initial_buscar"
  by (simp add: buscar_inv_def initial_buscar_def)

lemma even_below_100: "even (p::int) \<Longrightarrow> \<not> 100 \<le> p \<Longrightarrow> p + 2 \<le> 100"
  by presburger

lemma buscar_inv_click: "buscar_inv s \<Longrightarrow> buscar_inv (buscar_step s Click)"
  by (simp add: buscar_inv_def buscar_disabled_def running_effect_def handleClick_def Let_def)

lemma buscar_inv_tick: "buscar_inv s \<Longrightarrow> buscar_inv (buscar_step s Tick)"
  by (auto simp: buscar_inv_def running_effect_def interval_callback_def Let_def
      dest: even_below_100)

lemma buscar_inv_step: "buscar_inv s \<Longrightarrow> buscar_inv (buscar_step s e)"
  by (cases e) (simp_all only: buscar_inv_click buscar_inv_tick)

lemma buscar_inv_foldl: "buscar_inv s \<Longrightarrow> buscar_inv (foldl buscar_step s es)"
  by (induction es arbitrary: s) (simp_all add: buscar_inv_step)

lemma buscar_inv_run: "buscar_inv (buscar_run es)"
  unfolding buscar_run_def by (rule buscar_inv_foldl[OF buscar_inv_initial])

lemma phase_monotone:
  "buscar_inv s \<Longrightarrow> phase_rank (phase_of s) \<le> phase_rank (phase_of (buscar_step s e))"
  by (cases e)
    (auto simp: buscar_inv_def phase_of_def buscar_disabled_def running_effect_def
      handleClick_def interval_callback_def Let_def)

lemma click_disabled: "phase_of s \<noteq> Idle \<Longrightarrow> buscar_step s Click = s"
  by (auto simp: phase_of_def buscar_disabled_def split: if_splits)

lemma finished_stays: "buscar_inv s \<Longrightarrow> phase_of s = Finished \<Longrightarrow> buscar_step s e = s"
  by (cases e) (auto simp: buscar_inv_def phase_of_def buscar_disabled_def split: if_splits)

lemma click_starts:
  "buscar_step initial_buscar Click =
     \<lparr>progress = 0, running = True, is_done = False, interval_active = True\<rparr>"
  by (simp add: initial_buscar_def buscar_disabled_def running_effect_def handleClick_def Let_def)

lemma ticks_advance:
  "k \<le> 50 \<Longrightarrow>
   foldl buscar_step \<lparr>progress = 0, running = True, is_done = False, interval_active = True\<rparr>
     (replicate k Tick) =
   \<lparr>progress = 2 * int k, running = True, is_done = False, interval_active = True\<rparr>"
proof (induction k)
  case 0
  then show ?case by simp
next
  case (Suc k)
  then have k: "k \<le> 50" and lt: "2 * int k < 100" by simp_all
  have r: "replicate (Suc k) Tick = replicate k Tick @ [Tick]"
    by (simp add: replicate_append_same)
  show ?case
    unfolding r foldl_append Suc.IH[OF k]
    using lt by (simp add: running_effect_def interval_callback_def)
qed

lemma last_tick_finishes:
  "foldl buscar_step \<lparr>progress = 0, running = True, is_done = False, interval_active = True\<rparr>
     (replicate 51 Tick) =
   \<lparr>progress = 100, running = False, is_done = True, interval_active = False\<rparr>"
proof -
  have r: "replicate 51 Tick = replicate 50 Tick @ [Tick]"
    by (simp only: replicate_append_same) (simp add: eval_nat_numeral)
  show ?thesis
    unfolding r foldl_append ticks_advance[of 50, simplified]
    by (simp add: running_effect_def interval_callback_def)
qed

text \<open>
  Claim C9, as amended. While the button of a row stays mounted, the search action goes
  from idle to running to done and never back: in every state the button reaches, the
  progress lies between 0 and 100 and no event lowers the phase; a click while the
  button is running or done changes nothing (so a second click while running does not
  reset the progress), and once the button is done it is disabled and every event
  leaves it as it is. From the idle state a click starts the run at progress 0, each
  tick adds 2 up to 100 after 50 ticks, and the next tick ends the run in the done
  state. (The state belongs to the mounted button, not to the row: see below.)
\<close>

theorem buscar_state_machine:
  "0 \<le> progress (buscar_run es) \<and> progress (buscar_run es) \<le> 100 \<and>
   phase_rank (phase_of (buscar_run es)) \<le> phase_rank (phase_of (buscar_step (buscar_run es) e)) \<and>
   (phase_of (buscar_run es) \<noteq> Idle \<longrightarrow> buscar_step (buscar_run es) Click = buscar_run es) \<and>
   (phase_of (buscar_run es) = Finished \<longrightarrow>
      buscar_disabled (buscar_run es) \<and> buscar_step (buscar_run es) e = buscar_run es) \<and>
   (phase_of (buscar_run es) = Idle \<longrightarrow>
      (\<forall>k \<le> 50. foldl buscar_step (buscar_run es) (Click # replicate k Tick) =
         \<lparr>progress = 2 * int k, running = True, is_done = False, interval_active = True\<rparr>) \<and>
      foldl buscar_step (buscar_run es) (Click # replicate 51 Tick) =
         \<lparr>progress = 100, running = False, is_done = True, interval_active = False\<rparr>)"
proof (intro conjI impI allI)
  note inv = buscar_inv_run[of es]
  from inv show "0 \<le> progress (buscar_run es)" by (simp add: buscar_inv_def)
  from inv show "progress (buscar_run es) \<le> 100" by (simp add: buscar_inv_def)
  from inv show "phase_rank (phase_of (buscar_run es))
      \<le> phase_rank (phase_of (buscar_step (buscar_run es) e))"
    by (rule phase_monotone)
  show "buscar_step (buscar_run es) Click = buscar_run es" if "phase_of (buscar_run es) \<noteq> Idle"
    using that by (rule click_disabled)
  show "buscar_disabled (buscar_run es)" if "phase_of (buscar_run es) = Finished"
    using that by (auto simp: phase_of_def buscar_disabled_def split: if_splits)
  show "buscar_step (buscar_run es) e = buscar_run es" if "phase_of (buscar_run es) = Finished"
    using inv that by (rule finished_stays)
  have init: "buscar_run es = initial_buscar" if "phase_of (buscar_run es) = Idle"
    using inv that by (auto simp: buscar_inv_def phase_of_def split: if_splits)
  show "foldl buscar_step (buscar_run es) (Click # replicate k Tick) =
         \<lparr>progress = 2 * int k, running = True, is_done = False, interval_active = True\<rparr>"
    if "phase_of (buscar_run es) = Idle" "k \<le> 50" for k
    using that(2) unfolding init[OF that(1)] foldl_Cons click_starts by (rule ticks_advance)
  show "foldl buscar_step (buscar_run es) (Click # replicate 51 Tick) =
         \<lparr>progress = 100, running = False, is_done = True, interval_active = False\<rparr>"
    if "phase_of (buscar_run es) = Idle"
    unfolding init[OF that] foldl_Cons click_starts by (rule last_tick_finishes)
qed


theorem buscar_state_machine_witness:
  "phase_of (buscar_run [Click, Tick]) \<noteq> Idle \<and>
   buscar_step (buscar_run [Click, Tick]) Click = buscar_run [Click, Tick] \<and>
   progress (buscar_run [Click, Tick, Click]) = 2 \<and>
   phase_of (buscar_run []) = Idle \<and> (50::nat) \<le> 50 \<and>
   foldl buscar_step (buscar_run []) (Click # replicate 50 Tick) =
     \<lparr>progress = 2 * int 50, running = True, is_done = False, interval_active = True\<rparr> \<and>
   phase_of (buscar_run (Click # replicate 51 Tick)) = Finished \<and>
   buscar_step (buscar_run (Click # replicate 51 Tick)) Tick = buscar_run (Click # replicate 51 Tick)"
proof -
  have a: "phase_of (buscar_run [Click, Tick]) \<noteq> Idle" by code_simp
  have b: "phase_of (buscar_run []) = Idle" by code_simp
  have c: "phase_of (buscar_run (Click # replicate 51 Tick)) = Finished" by code_simp
  have k: "(50::nat) \<le> 50" by simp
  have 1: "buscar_step (buscar_run [Click, Tick]) Click = buscar_run [Click, Tick]"
    using buscar_state_machine[of "[Click, Tick]" Click, THEN conjunct2, THEN conjunct2,
        THEN conjunct2, THEN conjunct1] a by (rule mp)
  have 2: "progress (buscar_run [Click, Tick, Click]) = 2" by code_simp
  have "\<forall>k \<le> 50. foldl buscar_step (buscar_run []) (Click # replicate k Tick) =
         \<lparr>progress = 2 * int k, running = True, is_done = False, interval_active = True\<rparr>"
    using buscar_state_machine[of "[]" Click, THEN conjunct2, THEN conjunct2,
        THEN conjunct2, THEN conjunct2, THEN conjunct2, THEN mp, OF b] by (rule conjunct1)
  then have 3: "foldl buscar_step (buscar_run []) (Click # replicate 50 Tick) =
     \<lparr>progress = 2 * int 50, running = True, is_done = False, interval_active = True\<rparr>"
    using k by (elim allE impE) assumption+
  have 4: "buscar_step (buscar_run (Click # replicate 51 Tick)) Tick = buscar_run (Click # replicate 51 Tick)"
    using buscar_state_machine[of "Click # replicate 51 Tick" Tick, THEN conjunct2, THEN conjunct2,
        THEN conjunct2, THEN conjunct2, THEN conjunct1, THEN mp, OF c] by (rule conjunct2)
  from a 1 2 b k 3 c 4 show ?thesis by (intro conjI)
qed

lemma records_first_page: "records (mount six) = take 5 six"
  by code_simp

lemma records_second_page: "records table_on_page_two = drop 5 six"
  by code_simp

lemma records_first_page_again:
  "records (after_event (onPageChange 1) table_on_page_two) = take 5 six"
  by code_simp

lemma row_one_on_pages:
  "list_ex (\<lambda>r. id_num r = 1) (take 5 six)" "\<not> list_ex (\<lambda>r. id_num r = 1) (drop 5 six)"
  by code_simp+

lemma button_one_first_page: "buttons_first_page 1 = Some initial_buscar"
  by (simp add: buttons_first_page_def render_buttons_def records_first_page row_one_on_pages)

lemma button_one_done:
  "buttons_row_one_done 1 =
     Some \<lparr>progress = 100, running = False, is_done = True, interval_active = False\<rparr>"
  unfolding buttons_row_one_done_def button_events_def button_one_first_page
  by (simp del: buscar_step.simps add: click_starts last_tick_finishes)

lemma button_one_second_page: "buttons_second_page 1 = None"
  by (simp add: buttons_second_page_def render_buttons_def records_second_page row_one_on_pages)

lemma button_one_first_page_again: "buttons_first_page_again 1 = Some initial_buscar"
  by (simp add: buttons_first_page_again_def render_buttons_def records_first_page_again
      row_one_on_pages button_one_second_page)

text \<open>
  Claim C9 as stated fails for a row: the done state is not permanent. With six
  records shown five per page, the search of row 1 runs to its end and its button is
  done and disabled; on page 2 the row is not rendered and its button is unmounted;
  back on page 1 the row has a new button, idle and enabled.
\<close>

theorem remounted_button_is_idle_counterexample:
  "map_option phase_of (buttons_row_one_done 1) = Some Finished \<and>
   map_option buscar_disabled (buttons_row_one_done 1) = Some True \<and>
   buttons_second_page 1 = None \<and>
   map_option phase_of (buttons_first_page_again 1) = Some Idle \<and>
   map_option buscar_disabled (buttons_first_page_again 1) = Some False"
  unfolding button_one_done button_one_second_page button_one_first_page_again
  by (simp add: phase_of_def buscar_disabled_def initial_buscar_def)

section \<open>Properties of the product editor\<close>

subsection \<open>Update\<close>

lemma handleSubmit_guard:
  "product pr = None \<or> \<not> isCreator s \<or> \<not> canEditProduct au \<Longrightarrow>
   handleSubmit pr au s vals net = (s, [])"
  by (auto simp: handleSubmit_def split: option.splits)

lemma handleSubmit_calls:
  "product pr = Some p \<Longrightarrow> isCreator s \<Longrightarrow> canEditProduct au \<Longrightarrow>
   \<exists>rest. handleSubmit pr au s vals net =
     (s\<lparr>loading := False\<rparr>,
      Fetch PUT (''/api/products/'' @ product_id p) (accessToken au) (Some (vals, user_id au)) # rest)
     \<and> \<not> list_ex is_fetch rest"
  by (cases net)
    (auto simp: handleSubmit_def Let_def on_success_def split: body.splits sum.splits)

lemma isCreator_product_effect:
  "product pr = Some p \<Longrightarrow> isCreator (product_effect pr au s0) = (user_id au = createdById p)"
  by (simp add: product_effect_def)

text \<open>
  Claim C4. A submitted update calls the network only if a product is present, the
  current user is its creator and the edit permission is present: for every state only
  if \<^verbatim>\<open>isCreator\<close> holds, and for the state that the product effect has set only if
  the user's identifier equals the product's \<^verbatim>\<open>createdById\<close>. When \<^verbatim>\<open>isCreator\<close> is
  false the handler returns with no effect at all and the state as it was.
\<close>

theorem submit_needs_creator_and_permission:
  "(list_ex is_fetch (snd (handleSubmit pr au s vals net)) \<longrightarrow>
      product pr \<noteq> None \<and> isCreator s \<and> canEditProduct au) \<and>
   (list_ex is_fetch (snd (handleSubmit pr au (product_effect pr au s0) vals net)) \<longrightarrow>
      (\<exists>p. product pr = Some p \<and> user_id au = createdById p) \<and> canEditProduct au) \<and>
   (\<not> isCreator s \<longrightarrow> handleSubmit pr au s vals net = (s, []))"
proof -
  have g: "product pr \<noteq> None \<and> isCreator s' \<and> canEditProduct au"
    if "list_ex is_fetch (snd (handleSubmit pr au s' vals net))" for s'
  proof (rule ccontr)
    assume "\<not> (product pr \<noteq> None \<and> isCreator s' \<and> canEditProduct au)"
    then have "handleSubmit pr au s' vals net = (s', [])"
      by (intro handleSubmit_guard) blast
    with that show False by simp
  qed
  have A: "list_ex is_fetch (snd (handleSubmit pr au s vals net)) \<longrightarrow>
      product pr \<noteq> None \<and> isCreator s \<and> canEditProduct au"
    by (rule impI) (rule g)
  have B: "list_ex is_fetch (snd (handleSubmit pr au (product_effect pr au s0) vals net)) \<longrightarrow>
      (\<exists>p. product pr = Some p \<and> user_id au = createdById p) \<and> canEditProduct au"
  proof (rule impI)
    assume "list_ex is_fetch (snd (handleSubmit pr au (product_effect pr au s0) vals net))"
    from g[OF this] obtain p where p: "product pr = Some p"
      and c: "isCreator (product_effect pr au s0)" and e: "canEditProduct au" by auto
    from c have "user_id au = createdById p" by (simp only: isCreator_product_effect[OF p])
    with p e show "(\<exists>p. product pr = Some p \<and> user_id au = createdById p) \<and> canEditProduct au"
      by (intro conjI exI[of _ p]) assumption+
  qed
  have C: "\<not> isCreator s \<longrightarrow> handleSubmit pr au s vals net = (s, [])"
    by (rule impI, rule handleSubmit_guard) (rule disjI2, rule disjI1)
  from A B C show ?thesis by (intro conjI)
qed


theorem submit_needs_creator_and_permission_witness:
  "list_ex is_fetch (snd (handleSubmit lamp_props creator_auth
      (product_effect lamp_props creator_auth initial_drawer) edited_values
      (Responds True (Json Falsy)))) \<and>
   (\<exists>p. product lamp_props = Some p \<and> user_id creator_auth = createdById p) \<and>
   canEditProduct creator_auth \<and>
   \<not> isCreator (product_effect lamp_props other_auth initial_drawer) \<and>
   handleSubmit lamp_props other_auth (product_effect lamp_props other_auth initial_drawer)
     edited_values (Responds True (Json Falsy))
     = (product_effect lamp_props other_auth initial_drawer, [])"
proof -
  have f: "list_ex is_fetch (snd (handleSubmit lamp_props creator_auth
      (product_effect lamp_props creator_auth initial_drawer) edited_values
      (Responds True (Json Falsy))))"
    by code_simp
  have n: "\<not> isCreator (product_effect lamp_props other_auth initial_drawer)"
    by code_simp
  have 1: "(\<exists>p. product lamp_props = Some p \<and> user_id creator_auth = createdById p) \<and>
      canEditProduct creator_auth"
    using submit_needs_creator_and_permission
      [of lamp_props creator_auth initial_drawer edited_values "Responds True (Json Falsy)"
        initial_drawer, THEN conjunct2, THEN conjunct1] f
    by (rule mp)
  have 2: "handleSubmit lamp_props other_auth (product_effect lamp_props other_auth initial_drawer)
     edited_values (Responds True (Json Falsy))
     = (product_effect lamp_props other_auth initial_drawer, [])"
    using submit_needs_creator_and_permission
      [of lamp_props other_auth "product_effect lamp_props other_auth initial_drawer"
        edited_values "Responds True (Json Falsy)" initial_drawer,
        THEN conjunct2, THEN conjunct2] n
    by (rule mp)
  show ?thesis
    by (rule conjI[OF f conjI[OF 1[THEN conjunct1] conjI[OF 1[THEN conjunct2] conjI[OF n 2]]]])
qed

subsection \<open>Delete\<close>

lemma handleDelete_guard:
  "product pr = None \<or> \<not> isCreator s \<Longrightarrow> handleDelete pr au s confirmed net = (s, [])"
  by (auto simp: handleDelete_def split: option.splits)

lemma handleDelete_declined:
  "product pr = Some p \<Longrightarrow> isCreator s \<Longrightarrow> \<not> confirmed \<Longrightarrow>
   handleDelete pr au s confirmed net =
     (s, [Confirm ''Are you sure you want to delete this product?''])"
  by (simp add: handleDelete_def)

lemma handleDelete_confirmed:
  "product pr = Some p \<Longrightarrow> isCreator s \<Longrightarrow> confirmed \<Longrightarrow>
   \<exists>rest. snd (handleDelete pr au s confirmed net) =
       Confirm ''Are you sure you want to delete this product?'' #
       Fetch DELETE (''/api/products/'' @ product_id p) (accessToken au) None # rest
     \<and> \<not> list_ex is_fetch rest
     \<and> ((\<exists>b. net = Responds True b) \<longrightarrow> rest = on_success pr ''Product deleted successfully'')"
  by (cases net)
    (auto simp: handleDelete_def Let_def on_success_def split: body.splits sum.splits)

lemma count_on_success:
  "has_onProductUpdated pr \<Longrightarrow> count_list (on_success pr msg) OnProductUpdated = 1"
  "has_onClose pr \<Longrightarrow> count_list (on_success pr msg) OnClose = 1"
  by (simp_all add: on_success_def)

text \<open>
  Claim C5. The delete handler calls the network only if a product is present, the
  current user is its creator and the confirmation dialog, shown before the call, was
  answered with yes. A confirmed delete by the creator calls DELETE exactly once, and
  on an ok response the supplied refresh callback is invoked exactly once and the
  supplied close callback is invoked (once).
\<close>

theorem delete_needs_creator_and_confirmation:
  "(list_ex is_fetch (snd (handleDelete pr au s confirmed net)) \<longrightarrow>
      product pr \<noteq> None \<and> isCreator s \<and> confirmed \<and>
      (\<exists>q u t rest. snd (handleDelete pr au s confirmed net) =
                       Confirm q # Fetch DELETE u t None # rest \<and> \<not> list_ex is_fetch rest)) \<and>
   (list_ex is_fetch (snd (handleDelete pr au (product_effect pr au s0) confirmed net)) \<longrightarrow>
      (\<exists>p. product pr = Some p \<and> user_id au = createdById p)) \<and>
   (product pr \<noteq> None \<and> isCreator s \<and> confirmed \<longrightarrow>
      length (filter (is_fetch_of DELETE) (snd (handleDelete pr au s confirmed net))) = 1 \<and>
      length (filter is_fetch (snd (handleDelete pr au s confirmed net))) = 1) \<and>
   (product pr \<noteq> None \<and> isCreator s \<and> confirmed \<and> (\<exists>b. net = Responds True b) \<longrightarrow>
      (has_onProductUpdated pr \<longrightarrow>
         count_list (snd (handleDelete pr au s confirmed net)) OnProductUpdated = 1) \<and>
      (has_onClose pr \<longrightarrow>
         count_list (snd (handleDelete pr au s confirmed net)) OnClose = 1))"
proof -
  have g: "product pr \<noteq> None \<and> isCreator s' \<and> confirmed"
    if "list_ex is_fetch (snd (handleDelete pr au s' confirmed net))" for s'
  proof (rule ccontr)
    assume n: "\<not> (product pr \<noteq> None \<and> isCreator s' \<and> confirmed)"
    show False
    proof (cases "product pr = None \<or> \<not> isCreator s'")
      case True
      then have "handleDelete pr au s' confirmed net = (s', [])" by (rule handleDelete_guard)
      with that show False by simp
    next
      case False
      then obtain p where pc: "product pr = Some p" "isCreator s'" by auto
      with n have "\<not> confirmed" by simp
      with pc have "handleDelete pr au s' confirmed net =
        (s', [Confirm ''Are you sure you want to delete this product?''])"
        by (intro handleDelete_declined)
      with that show False by simp
    qed
  qed
  have A: "list_ex is_fetch (snd (handleDelete pr au s confirmed net)) \<longrightarrow>
      product pr \<noteq> None \<and> isCreator s \<and> confirmed \<and>
      (\<exists>q u t rest. snd (handleDelete pr au s confirmed net) =
                       Confirm q # Fetch DELETE u t None # rest \<and> \<not> list_ex is_fetch rest)"
  proof (rule impI)
    assume "list_ex is_fetch (snd (handleDelete pr au s confirmed net))"
    from g[OF this] obtain p where p: "product pr = Some p" and c: "isCreator s" and k: confirmed
      by auto
    from handleDelete_confirmed[OF p c k, of au net] p c k
    show "product pr \<noteq> None \<and> isCreator s \<and> confirmed \<and>
      (\<exists>q u t rest. snd (handleDelete pr au s confirmed net) =
                       Confirm q # Fetch DELETE u t None # rest \<and> \<not> list_ex is_fetch rest)"
      by auto
  qed
  have B: "list_ex is_fetch (snd (handleDelete pr au (product_effect pr au s0) confirmed net)) \<longrightarrow>
      (\<exists>p. product pr = Some p \<and> user_id au = createdById p)"
  proof (rule impI)
    assume "list_ex is_fetch (snd (handleDelete pr au (product_effect pr au s0) confirmed net))"
    from g[OF this] obtain p where p: "product pr = Some p"
      and c: "isCreator (product_effect pr au s0)" by auto
    from c have "user_id au = createdById p" by (simp only: isCreator_product_effect[OF p])
    with p show "\<exists>p. product pr = Some p \<and> user_id au = createdById p"
      by (intro conjI exI[of _ p]) assumption+
  qed
  have C: "product pr \<noteq> None \<and> isCreator s \<and> confirmed \<longrightarrow>
      length (filter (is_fetch_of DELETE) (snd (handleDelete pr au s confirmed net))) = 1 \<and>
      length (filter is_fetch (snd (handleDelete pr au s confirmed net))) = 1"
  proof (rule impI)
    assume "product pr \<noteq> None \<and> isCreator s \<and> confirmed"
    then obtain p where p: "product pr = Some p" and c: "isCreator s" and k: confirmed by auto
    from handleDelete_confirmed[OF p c k, of au net] obtain rest where
      e: "snd (handleDelete pr au s confirmed net) =
           Confirm ''Are you sure you want to delete this product?'' #
           Fetch DELETE (''/api/products/'' @ product_id p) (accessToken au) None # rest"
      and r: "\<not> list_ex is_fetch rest" by blast
    from r have f: "filter is_fetch rest = []" by (simp add: list_ex_iff filter_empty_conv)
    have "is_fetch_of DELETE x \<Longrightarrow> is_fetch x" for x by (cases x) simp_all
    with r have h: "filter (is_fetch_of DELETE) rest = []"
      by (auto simp: list_ex_iff filter_empty_conv)
    show "length (filter (is_fetch_of DELETE) (snd (handleDelete pr au s confirmed net))) = 1 \<and>
      length (filter is_fetch (snd (handleDelete pr au s confirmed net))) = 1"
      unfolding e by (simp add: f h)
  qed
  have D: "product pr \<noteq> None \<and> isCreator s \<and> confirmed \<and> (\<exists>b. net = Responds True b) \<longrightarrow>
      (has_onProductUpdated pr \<longrightarrow>
         count_list (snd (handleDelete pr au s confirmed net)) OnProductUpdated = 1) \<and>
      (has_onClose pr \<longrightarrow>
         count_list (snd (handleDelete pr au s confirmed net)) OnClose = 1)"
  proof (rule impI)
    assume a: "product pr \<noteq> None \<and> isCreator s \<and> confirmed \<and> (\<exists>b. net = Responds True b)"
    then obtain p where p: "product pr = Some p" and c: "isCreator s" and k: confirmed
      and ok: "\<exists>b. net = Responds True b" by auto
    from handleDelete_confirmed[OF p c k, of au net] ok have
      e: "snd (handleDelete pr au s confirmed net) =
           Confirm ''Are you sure you want to delete this product?'' #
           Fetch DELETE (''/api/products/'' @ product_id p) (accessToken au) None #
           on_success pr ''Product deleted successfully''"
      by auto
    show "(has_onProductUpdated pr \<longrightarrow>
         count_list (snd (handleDelete pr au s confirmed net)) OnProductUpdated = 1) \<and>
      (has_onClose pr \<longrightarrow>
         count_list (snd (handleDelete pr au s confirmed net)) OnClose = 1)"
      unfolding e by (simp add: count_on_success)
  qed
  from A B C D show ?thesis by (intro conjI)
qed


theorem delete_needs_creator_and_confirmation_witness:
  "list_ex is_fetch (snd (handleDelete lamp_props creator_auth
      (product_effect lamp_props creator_auth initial_drawer) True (Responds True (NotJson [])))) \<and>
   (\<exists>p. product lamp_props = Some p \<and> user_id creator_auth = createdById p) \<and>
   (product lamp_props \<noteq> None \<and>
    isCreator (product_effect lamp_props creator_auth initial_drawer) \<and> True \<and>
    (\<exists>b. Responds True (NotJson []) = Responds True b)) \<and>
   has_onProductUpdated lamp_props \<and> has_onClose lamp_props \<and>
   count_list (snd (handleDelete lamp_props creator_auth
      (product_effect lamp_props creator_auth initial_drawer) True (Responds True (NotJson []))))
      OnProductUpdated = 1 \<and>
   count_list (snd (handleDelete lamp_props creator_auth
      (product_effect lamp_props creator_auth initial_drawer) True (Responds True (NotJson []))))
      OnClose = 1"
proof -
  let ?s = "product_effect lamp_props creator_auth initial_drawer"
  let ?E = "snd (handleDelete lamp_props creator_auth ?s True (Responds True (NotJson [])))"
  have f: "list_ex is_fetch ?E" by code_simp
  have h: "product lamp_props \<noteq> None \<and> isCreator ?s \<and> True \<and>
    (\<exists>b. Responds True (NotJson []) = Responds True b)"
  proof (intro conjI)
    show "product lamp_props \<noteq> None" by (simp add: lamp_props_def)
    show "isCreator ?s" by code_simp
    show True ..
    show "\<exists>b. Responds True (NotJson []) = Responds True b" by (rule exI) (rule refl)
  qed
  have u: "has_onProductUpdated lamp_props" and c: "has_onClose lamp_props"
    by (simp_all add: lamp_props_def)
  note inst = delete_needs_creator_and_confirmation
    [of lamp_props creator_auth ?s True "Responds True (NotJson [])" initial_drawer]
  have 1: "\<exists>p. product lamp_props = Some p \<and> user_id creator_auth = createdById p"
    using inst[THEN conjunct2, THEN conjunct1] f by (rule mp)
  have 2: "(has_onProductUpdated lamp_props \<longrightarrow> count_list ?E OnProductUpdated = 1) \<and>
      (has_onClose lamp_props \<longrightarrow> count_list ?E OnClose = 1)"
    using inst[THEN conjunct2, THEN conjunct2, THEN conjunct2] h by (rule mp)
  have 3: "count_list ?E OnProductUpdated = 1" using 2[THEN conjunct1] u by (rule mp)
  have 4: "count_list ?E OnClose = 1" using 2[THEN conjunct2] c by (rule mp)
  show ?thesis
    by (rule conjI[OF f conjI[OF 1 conjI[OF h conjI[OF u conjI[OF c conjI[OF 3 4]]]]]])
qed

subsection \<open>Failed update\<close>

lemma handleSubmit_failure:
  assumes "product pr = Some p" and "isCreator s" and "canEditProduct au"
  shows "handleSubmit pr au s vals (Rejects t) =
           (s\<lparr>loading := False\<rparr>,
            [Fetch PUT (''/api/products/'' @ product_id p) (accessToken au) (Some (vals, user_id au)),
             Notify ''Error'' (catch_message t ''Failed to update product'') ''red''])"
    and "handleSubmit pr au s vals (Responds ok (NotJson m)) =
           (s\<lparr>loading := False\<rparr>,
            [Fetch PUT (''/api/products/'' @ product_id p) (accessToken au) (Some (vals, user_id au)),
             Notify ''Error'' m ''red''])"
    and "handleSubmit pr au s vals (Responds False (JsonNull m)) =
           (s\<lparr>loading := False\<rparr>,
            [Fetch PUT (''/api/products/'' @ product_id p) (accessToken au) (Some (vals, user_id au)),
             Notify ''Error'' m ''red''])"
    and "handleSubmit pr au s vals (Responds False (Json e)) =
           (s\<lparr>loading := False\<rparr>,
            [Fetch PUT (''/api/products/'' @ product_id p) (accessToken au) (Some (vals, user_id au)),
             Notify ''Error'' (error_or e ''Failed to update product'') ''red''])"
  using assms by (simp_all add: handleSubmit_def Let_def catch_message_def)

text \<open>
  Claim C6, as amended. For an update by the creator with the edit permission that
  fails (the response is not ok, or \<^verbatim>\<open>fetch\<close> rejects), exactly one error
  notification is shown, neither the close nor the refresh callback is invoked, and the
  form values stay as they were. When the response is not ok and its body is a JSON
  value other than \<^verbatim>\<open>null\<close>, the message is the one made of the body's \<^verbatim>\<open>error\<close>
  when that is truthy (for a string: not empty), and \<open>Failed to update product\<close> when
  it is absent or falsy. When the body is not JSON, when the body is \<^verbatim>\<open>null\<close>, or
  when \<^verbatim>\<open>fetch\<close> rejects with an \<^verbatim>\<open>Error\<close>, the message is that of the error thrown;
  the generic message is used for a thrown value that is not an \<^verbatim>\<open>Error\<close>.
\<close>

theorem failed_update_notifies_and_keeps_editor:
  assumes "product pr = Some p" and "isCreator s" and "canEditProduct au"
  shows
   "(is_failure net \<longrightarrow>
       length (filter is_error_notification (snd (handleSubmit pr au s vals net))) = 1 \<and>
       OnClose \<notin> set (snd (handleSubmit pr au s vals net)) \<and>
       OnProductUpdated \<notin> set (snd (handleSubmit pr au s vals net)) \<and>
       form (fst (handleSubmit pr au s vals net)) = form s) \<and>
    snd (handleSubmit pr au s vals (Responds False (Json (Truthy m)))) =
      [Fetch PUT (''/api/products/'' @ product_id p) (accessToken au) (Some (vals, user_id au)),
       Notify ''Error'' m ''red''] \<and>
    snd (handleSubmit pr au s vals (Responds False (Json Falsy))) =
      [Fetch PUT (''/api/products/'' @ product_id p) (accessToken au) (Some (vals, user_id au)),
       Notify ''Error'' ''Failed to update product'' ''red''] \<and>
    snd (handleSubmit pr au s vals (Responds False (JsonNull m))) =
      [Fetch PUT (''/api/products/'' @ product_id p) (accessToken au) (Some (vals, user_id au)),
       Notify ''Error'' m ''red''] \<and>
    snd (handleSubmit pr au s vals (Responds False (NotJson m))) =
      [Fetch PUT (''/api/products/'' @ product_id p) (accessToken au) (Some (vals, user_id au)),
       Notify ''Error'' m ''red''] \<and>
    snd (handleSubmit pr au s vals (Rejects (ErrorObject m))) =
      [Fetch PUT (''/api/products/'' @ product_id p) (accessToken au) (Some (vals, user_id au)),
       Notify ''Error'' m ''red''] \<and>
    snd (handleSubmit pr au s vals (Rejects OtherValue)) =
      [Fetch PUT (''/api/products/'' @ product_id p) (accessToken au) (Some (vals, user_id au)),
       Notify ''Error'' ''Failed to update product'' ''red'']"
proof -
  note f = handleSubmit_failure[OF assms]
  have A: "is_failure net \<longrightarrow>
       length (filter is_error_notification (snd (handleSubmit pr au s vals net))) = 1 \<and>
       OnClose \<notin> set (snd (handleSubmit pr au s vals net)) \<and>
       OnProductUpdated \<notin> set (snd (handleSubmit pr au s vals net)) \<and>
       form (fst (handleSubmit pr au s vals net)) = form s"
  proof (cases net)
    case (Rejects t)
    show ?thesis unfolding Rejects f by simp
  next
    case (Responds ok b)
    show ?thesis
    proof (cases ok)
      case True
      then show ?thesis unfolding Responds by (simp add: is_failure_def)
    next
      case False
      show ?thesis
      proof (cases b)
        case (NotJson m')
        show ?thesis unfolding Responds NotJson f by simp
      next
        case (JsonNull m')
        from False show ?thesis unfolding Responds JsonNull by (simp add: f)
      next
        case (Json e)
        from False show ?thesis unfolding Responds Json by (simp add: f)
      qed
    qed
  qed
  have B: "snd (handleSubmit pr au s vals (Responds False (Json (Truthy m)))) =
      [Fetch PUT (''/api/products/'' @ product_id p) (accessToken au) (Some (vals, user_id au)),
       Notify ''Error'' m ''red'']"
    unfolding f by (simp add: error_or_def)
  have C: "snd (handleSubmit pr au s vals (Responds False (Json Falsy))) =
      [Fetch PUT (''/api/products/'' @ product_id p) (accessToken au) (Some (vals, user_id au)),
       Notify ''Error'' ''Failed to update product'' ''red'']"
    unfolding f by (simp add: error_or_def)
  have D: "snd (handleSubmit pr au s vals (Responds False (JsonNull m))) =
      [Fetch PUT (''/api/products/'' @ product_id p) (accessToken au) (Some (vals, user_id au)),
       Notify ''Error'' m ''red'']"
    unfolding f by simp
  have E: "snd (handleSubmit pr au s vals (Responds False (NotJson m))) =
      [Fetch PUT (''/api/products/'' @ product_id p) (accessToken au) (Some (vals, user_id au)),
       Notify ''Error'' m ''red'']"
    unfolding f by simp
  have F: "snd (handleSubmit pr au s vals (Rejects (ErrorObject m))) =
      [Fetch PUT (''/api/products/'' @ product_id p) (accessToken au) (Some (vals, user_id au)),
       Notify ''Error'' m ''red'']"
    unfolding f by (simp add: catch_message_def)
  have G: "snd (handleSubmit pr au s vals (Rejects OtherValue)) =
      [Fetch PUT (''/api/products/'' @ product_id p) (accessToken au) (Some (vals, user_id au)),
       Notify ''Error'' ''Failed to update product'' ''red'']"
    unfolding f by (simp add: catch_message_def)
  from A B C D E F G show ?thesis by (intro conjI)
qed

theorem failed_update_notifies_and_keeps_editor_witness:
  "product lamp_props = Some lamp \<and>
   isCreator (product_effect lamp_props creator_auth initial_drawer) \<and>
   canEditProduct creator_auth \<and>
   is_failure (Responds False (Json (Truthy ''SKU already exists''))) \<and>
   snd (handleSubmit lamp_props creator_auth
          (product_effect lamp_props creator_auth initial_drawer) edited_values
          (Responds False (Json (Truthy ''SKU already exists'')))) =
     [Fetch PUT (''/api/products/'' @ product_id lamp) (accessToken creator_auth)
        (Some (edited_values, user_id creator_auth)),
      Notify ''Error'' ''SKU already exists'' ''red''] \<and>
   snd (handleSubmit lamp_props creator_auth
          (product_effect lamp_props creator_auth initial_drawer) edited_values
          (Responds False (JsonNull ''Cannot read properties of null''))) =
     [Fetch PUT (''/api/products/'' @ product_id lamp) (accessToken creator_auth)
        (Some (edited_values, user_id creator_auth)),
      Notify ''Error'' ''Cannot read properties of null'' ''red''] \<and>
   OnClose \<notin> set (snd (handleSubmit lamp_props creator_auth
          (product_effect lamp_props creator_auth initial_drawer) edited_values
          (Responds False (Json (Truthy ''SKU already exists''))))) \<and>
   form (fst (handleSubmit lamp_props creator_auth
          (product_effect lamp_props creator_auth initial_drawer) edited_values
          (Responds False (Json (Truthy ''SKU already exists'')))))
     = form (product_effect lamp_props creator_auth initial_drawer)"
proof -
  let ?s = "product_effect lamp_props creator_auth initial_drawer"
  let ?net = "Responds False (Json (Truthy ''SKU already exists''))"
  have p: "product lamp_props = Some lamp" by (simp add: lamp_props_def)
  have c: "isCreator ?s" by code_simp
  have e: "canEditProduct creator_auth" by code_simp
  have f: "is_failure ?net" by (simp add: is_failure_def)
  note inst = failed_update_notifies_and_keeps_editor
    [OF p c e, of ?net edited_values "''SKU already exists''"]
  note inst_null = failed_update_notifies_and_keeps_editor
    [OF p c e, of ?net edited_values "''Cannot read properties of null''"]
  have 1: "length (filter is_error_notification (snd (handleSubmit lamp_props creator_auth ?s edited_values ?net))) = 1 \<and>
       OnClose \<notin> set (snd (handleSubmit lamp_props creator_auth ?s edited_values ?net)) \<and>
       OnProductUpdated \<notin> set (snd (handleSubmit lamp_props creator_auth ?s edited_values ?net)) \<and>
       form (fst (handleSubmit lamp_props creator_auth ?s edited_values ?net)) = form ?s"
    using inst[THEN conjunct1] f by (rule mp)
  note 2 = inst[THEN conjunct2, THEN conjunct1]
  note 3 = inst_null[THEN conjunct2, THEN conjunct2, THEN conjunct2, THEN conjunct1]
  show ?thesis
    by (rule conjI[OF p conjI[OF c conjI[OF e conjI[OF f conjI[OF 2 conjI[OF 3
          conjI[OF 1[THEN conjunct2, THEN conjunct1]
                   1[THEN conjunct2, THEN conjunct2, THEN conjunct2]]]]]]]])
qed

text \<open>
  Claim C6 as stated fails on a transport error: when \<^verbatim>\<open>fetch\<close> rejects with the
  error \<open>Failed to fetch\<close>, there is no response body, and the notification carries
  \<open>Failed to fetch\<close>, not the generic message.
\<close>

theorem transport_error_message_counterexample:
  "is_failure (Rejects (ErrorObject ''Failed to fetch'')) \<and>
   snd (handleSubmit lamp_props creator_auth
      (product_effect lamp_props creator_auth initial_drawer) edited_values
      (Rejects (ErrorObject ''Failed to fetch''))) =
     [Fetch PUT ''/api/products/42'' ''token'' (Some (edited_values, Some ''u1'')),
      Notify ''Error'' ''Failed to fetch'' ''red''] \<and>
   Notify ''Error'' (spec_failure_message (Rejects (ErrorObject ''Failed to fetch''))) ''red''
     \<notin> set (snd (handleSubmit lamp_props creator_auth
      (product_effect lamp_props creator_auth initial_drawer) edited_values
      (Rejects (ErrorObject ''Failed to fetch''))))"
  by code_simp

end
